theory Spec2Isabelle
  imports Main "HOL-Library.Word"
begin

section \<open>Errors\<close>

text \<open>
  Every error return of the modelled Go code is a value. The constructors name the
  place the error comes from; the wrapped message strings of the source are not kept.
\<close>

datatype error =
    ErrGroupNotFound
  | ErrStorage
  | ErrVertexNotFound
  | ErrParsePrefix
  | ErrTxDone
  | ErrInvalidArgument
  | ErrFailedPrecondition
  | ErrPermissionDenied
  | ErrInternal

section \<open>Go string helpers used by the source\<close>

text \<open>
  \<open>strings.HasPrefix\<close>, \<open>strings.HasSuffix\<close>, \<open>strings.TrimPrefix\<close>,
  \<open>strings.TrimSuffix\<close>, \<open>strings.Contains\<close> and \<open>strings.Split\<close> of the Go
  standard library, on byte strings. \<open>Split\<close> is only ever called with the one-byte
  separator \<open>"*"\<close>, so the separator is a single character here.
\<close>

definition HasPrefix :: "string \<Rightarrow> string \<Rightarrow> bool" where
  "HasPrefix s p = (take (length p) s = p)"

definition HasSuffix :: "string \<Rightarrow> string \<Rightarrow> bool" where
  "HasSuffix s p = (length p \<le> length s \<and> drop (length s - length p) s = p)"

definition TrimPrefix :: "string \<Rightarrow> string \<Rightarrow> string" where
  "TrimPrefix s p = (if HasPrefix s p then drop (length p) s else s)"

definition TrimSuffix :: "string \<Rightarrow> string \<Rightarrow> string" where
  "TrimSuffix s p = (if HasSuffix s p then take (length s - length p) s else s)"

fun Contains :: "string \<Rightarrow> string \<Rightarrow> bool" where
  "Contains [] sub = (sub = [])"
| "Contains (c # s) sub = (HasPrefix (c # s) sub \<or> Contains s sub)"

fun Split :: "string \<Rightarrow> char \<Rightarrow> string list" where
  "Split [] sep = [[]]"
| "Split (c # s) sep =
     (if c = sep then [] # Split s sep
      else (case Split s sep of
              [] \<Rightarrow> [[c]]
            | p # ps \<Rightarrow> (c # p) # ps))"

section \<open>Network ACLs (pkg/meshdb/networking/eval.go)\<close>

subsection \<open>Data\<close>

datatype ACLAction = ACTION_UNKNOWN | ACTION_ACCEPT | ACTION_DENY

datatype SubjectType = SUBJECT_NODE | SUBJECT_USER | SUBJECT_GROUP | SUBJECT_ALL

record Subject =
  SubjectName :: string
  SubjectType :: SubjectType

record Group =
  GroupName :: string
  Subjects :: "Subject list"

text \<open>
  \<open>v1.NetworkACL\<close>: the priority is an \<open>int32\<close>, the ports are \<open>uint32\<close>.
\<close>

record ACL =
  Name :: string
  Priority :: "32 word"
  Action :: ACLAction
  SourceNodes :: "string list"
  DestinationNodes :: "string list"
  SourceCidrs :: "string list"
  DestinationCidrs :: "string list"
  Protocols :: "string list"
  Ports :: "32 word list"

record NetworkAction =
  SrcNode :: string
  SrcCidr :: string
  DstNode :: string
  DstCidr :: string
  Protocol :: string
  Port :: "32 word"

text \<open>
  The ACL holds a reference to the storage only to look groups up
  (\<open>rbac.New(acl.storage).GetGroup\<close>). The lookup is a function from the group name to
  the group or an error; \<open>ErrGroupNotFound\<close> is the one error \<open>Matches\<close> tolerates.
\<close>

type_synonym GetGroup = "string \<Rightarrow> error + Group"

subsection \<open>Sorting\<close>

datatype SortDirection = SortDescending | SortAscending

text \<open>\<open>ACLs.Less\<close>: signed comparison of the two priorities.\<close>

definition Less :: "ACL \<Rightarrow> ACL \<Rightarrow> bool" where
  "Less x y = (sint (Priority x) < sint (Priority y))"

text \<open>
  \<open>ACLs.Sort\<close> hands the list to \<open>sort.Sort\<close> (ascending) or to
  \<open>sort.Sort(sort.Reverse(a))\<close> (descending, also the default). Go's \<open>sort.Sort\<close>
  is not stable; the insertion sort below is one of the orders it may produce, the one
  that keeps equal priorities in their original order. \<open>SortDirection\<close> is an
  \<open>int\<close> in Go; a value other than the two constants also sorts descending.
\<close>

fun insertBy :: "(ACL \<Rightarrow> ACL \<Rightarrow> bool) \<Rightarrow> ACL \<Rightarrow> ACL list \<Rightarrow> ACL list" where
  "insertBy lt x [] = [x]"
| "insertBy lt x (y # ys) = (if lt y x then y # insertBy lt x ys else x # y # ys)"

definition sortBy :: "(ACL \<Rightarrow> ACL \<Rightarrow> bool) \<Rightarrow> ACL list \<Rightarrow> ACL list" where
  "sortBy lt xs = foldr (insertBy lt) xs []"

fun Sort :: "SortDirection \<Rightarrow> ACL list \<Rightarrow> ACL list" where
  "Sort SortAscending a = sortBy Less a"
| "Sort SortDescending a = sortBy (\<lambda>x y. Less y x) a"

text \<open>
  What \<open>Accept\<close> assumes of its receiver: no ACL stands before one of strictly higher
  priority.
\<close>

definition sortedDescending :: "ACL list \<Rightarrow> bool" where
  "sortedDescending acls = sorted_wrt (\<lambda>x y. \<not> Less x y) acls"

subsection \<open>Matching\<close>

fun containsOrWildcardMatch :: "string list \<Rightarrow> string \<Rightarrow> bool" where
  "containsOrWildcardMatch [] s = False"
| "containsOrWildcardMatch (v # ss) s =
     (if v = ''*'' then True
      else if Contains v ''*'' then
        (if HasPrefix v ''*'' then
           (if HasSuffix s (TrimPrefix v ''*'') then True
            else containsOrWildcardMatch ss s)
         else if HasSuffix v ''*'' then
           (if HasPrefix s (TrimSuffix v ''*'') then True
            else containsOrWildcardMatch ss s)
         else
           (case Split v (CHR ''*'') of
              p0 # p1 # _ \<Rightarrow>
                (if HasPrefix s p0 \<and> HasSuffix s p1 then True
                 else containsOrWildcardMatch ss s)
            | _ \<Rightarrow> containsOrWildcardMatch ss s))
      else if v = s then True
      else containsOrWildcardMatch ss s)"

fun containsPort :: "32 word list \<Rightarrow> 32 word \<Rightarrow> bool" where
  "containsPort [] p = False"
| "containsPort (v # pp) p = (if v = p then True else containsPort pp p)"

fun replace :: "string list \<Rightarrow> string \<Rightarrow> string list \<Rightarrow> string list" where
  "replace [] obj with = []"
| "replace (v # rest) obj with =
     (if v = obj then with @ replace rest obj with else v # replace rest obj with)"

text \<open>
  The local \<open>groups\<close> map of \<open>Matches\<close> (\<open>map[string][]string\<close>) is an association
  list. \<open>mapAppend\<close> is \<open>groups[k] = append(groups[k], v)\<close>. Go leaves the iteration
  order of a map open; the model iterates in the order in which the keys were first
  written.
\<close>

type_synonym GroupsMap = "(string \<times> string list) list"

fun mapAppend :: "GroupsMap \<Rightarrow> string \<Rightarrow> string \<Rightarrow> GroupsMap" where
  "mapAppend [] k v = [(k, [v])]"
| "mapAppend ((k', vs) # m) k v =
     (if k' = k then (k', vs @ [v]) # m else (k', vs) # mapAppend m k v)"

fun addSubjects :: "GroupsMap \<Rightarrow> string \<Rightarrow> Subject list \<Rightarrow> GroupsMap" where
  "addSubjects groups groupName [] = groups"
| "addSubjects groups groupName (subject # rest) =
     (if SubjectType subject = SUBJECT_ALL \<or> SubjectType subject = SUBJECT_NODE
      then addSubjects (mapAppend groups groupName (SubjectName subject)) groupName rest
      else addSubjects groups groupName rest)"

text \<open>
  The first loop over the node list (``Are we expanding any groups?''). The result
  \<open>None\<close> is the early \<open>return false\<close> after a lookup error other than
  \<open>ErrGroupNotFound\<close>. As in the source, the map is probed with the whole entry
  (\<open>groups[node]\<close>) but written under the trimmed name (\<open>groups[groupName]\<close>).
\<close>

fun collectGroups :: "GetGroup \<Rightarrow> string list \<Rightarrow> GroupsMap \<Rightarrow> GroupsMap option" where
  "collectGroups getGroup [] groups = Some groups"
| "collectGroups getGroup (node # rest) groups =
     (if HasPrefix node ''group:'' then
        (if node \<in> fst ` set groups then collectGroups getGroup rest groups
         else
           (case getGroup (TrimPrefix node ''group:'') of
              Inl err \<Rightarrow>
                (if err \<noteq> ErrGroupNotFound then None
                 else collectGroups getGroup rest groups)
            | Inr grp \<Rightarrow>
                collectGroups getGroup rest
                  (addSubjects groups (TrimPrefix node ''group:'') (Subjects grp))))
      else collectGroups getGroup rest groups)"

text \<open>
  The second loop (``Replace group references with their members''): for every entry of
  the map, the first node equal to \<open>"group:" + groupName\<close> triggers one \<open>replace\<close> on
  the whole list, then the inner loop breaks.
\<close>

fun replaceGroups :: "GroupsMap \<Rightarrow> string list \<Rightarrow> string list" where
  "replaceGroups [] nodes = nodes"
| "replaceGroups ((groupName, members) # rest) nodes =
     replaceGroups rest
       (if (''group:'' @ groupName) \<in> set nodes
        then replace nodes (''group:'' @ groupName) members
        else nodes)"

text \<open>
  The block that \<open>Matches\<close> runs for the source nodes and again for the destination
  nodes: expand, overwrite the list, test the action's node. The result is the outcome
  of the test (\<open>False\<close>: \<open>Matches\<close> returns false) and the list as the ACL holds it
  afterwards.
\<close>

definition resolveNodes :: "GetGroup \<Rightarrow> string list \<Rightarrow> string \<Rightarrow> bool \<times> string list" where
  "resolveNodes getGroup nodes s =
     (case collectGroups getGroup nodes [] of
        None \<Rightarrow> (False, nodes)
      | Some groups \<Rightarrow>
          (containsOrWildcardMatch (replaceGroups groups nodes) s,
           replaceGroups groups nodes))"

text \<open>
  \<open>ACL.Matches\<close>. The receiver is a pointer and the two node lists are assigned to, so
  the function returns the ACL as it is after the call together with the verdict. Each
  guard \<open>len(list) >= 0\<close> of the source is kept as written. The function is cut at
  its top-level \<open>if\<close> statements: \<open>matchSourceNodes\<close> and \<open>matchDestinationNodes\<close>
  return \<open>False\<close> where the source returns false, \<open>matchRest\<close> is the four tests of
  the CIDRs, the protocol and the port, which write nothing.
\<close>

definition matchSourceNodes :: "GetGroup \<Rightarrow> ACL \<Rightarrow> NetworkAction \<Rightarrow> bool \<times> ACL" where
  "matchSourceNodes getGroup acl action =
     (if SrcNode action \<noteq> [] then
        (if 0 \<le> length (SourceNodes acl) then
           (case resolveNodes getGroup (SourceNodes acl) (SrcNode action) of
              (ok, ns) \<Rightarrow> (ok, acl\<lparr>SourceNodes := ns\<rparr>))
         else (True, acl))
      else (True, acl))"

definition matchDestinationNodes :: "GetGroup \<Rightarrow> ACL \<Rightarrow> NetworkAction \<Rightarrow> bool \<times> ACL" where
  "matchDestinationNodes getGroup acl action =
     (if DstNode action \<noteq> [] then
        (if 0 \<le> length (DestinationNodes acl) then
           (case resolveNodes getGroup (DestinationNodes acl) (DstNode action) of
              (ok, ns) \<Rightarrow> (ok, acl\<lparr>DestinationNodes := ns\<rparr>))
         else (True, acl))
      else (True, acl))"

definition matchRest :: "ACL \<Rightarrow> NetworkAction \<Rightarrow> bool" where
  "matchRest acl action =
     (if SrcCidr action \<noteq> [] \<and> 0 \<le> length (SourceCidrs acl)
         \<and> \<not> containsOrWildcardMatch (SourceCidrs acl) (SrcCidr action)
      then False
      else if DstCidr action \<noteq> [] \<and> 0 \<le> length (DestinationCidrs acl)
         \<and> \<not> containsOrWildcardMatch (DestinationCidrs acl) (DstCidr action)
      then False
      else if Protocol action \<noteq> [] \<and> 0 \<le> length (Protocols acl)
         \<and> \<not> containsOrWildcardMatch (Protocols acl) (Protocol action)
      then False
      else if Port action \<noteq> 0 \<and> 0 \<le> length (Ports acl)
         \<and> \<not> containsPort (Ports acl) (Port action)
      then False
      else True)"

definition Matches :: "GetGroup \<Rightarrow> ACL \<Rightarrow> NetworkAction \<Rightarrow> bool \<times> ACL" where
  "Matches getGroup acl action =
     (case matchSourceNodes getGroup acl action of
        (False, acl1) \<Rightarrow> (False, acl1)
      | (True, acl1) \<Rightarrow>
          (case matchDestinationNodes getGroup acl1 action of
             (False, acl2) \<Rightarrow> (False, acl2)
           | (True, acl2) \<Rightarrow> (matchRest acl2 action, acl2)))"

text \<open>
  \<open>ACLs.Accept\<close>: the first ACL that matches decides; none matching, or a nil list,
  denies. The elements are pointers, so every ACL up to and including the deciding one
  is left as \<open>Matches\<close> made it.
\<close>

fun Accept :: "GetGroup \<Rightarrow> ACL list \<Rightarrow> NetworkAction \<Rightarrow> bool \<times> ACL list" where
  "Accept getGroup [] action = (False, [])"
| "Accept getGroup (acl # rest) action =
     (case Matches getGroup acl action of
        (True, acl') \<Rightarrow> (Action acl' = ACTION_ACCEPT, acl' # rest)
      | (False, acl') \<Rightarrow>
          (case Accept getGroup rest action of
             (r, rest') \<Rightarrow> (r, acl' # rest')))"

section \<open>Topology resolution (pkg/util/meshutil/peers.go)\<close>

subsection \<open>Data\<close>

text \<open>
  \<open>netip.ParsePrefix\<close> and \<open>netip.Prefix.String\<close> belong to the Go standard library.
  They are parameters of the model: \<open>'p\<close> is the type of parsed prefixes,
  \<open>ParsePrefix\<close> returns \<open>None\<close> where the Go function returns an error.
\<close>

record 'p NetIP =
  ParsePrefix :: "string \<Rightarrow> 'p option"
  PrefixString :: "'p \<Rightarrow> string"

text \<open>
  \<open>peers.MeshNode\<close> (which embeds \<open>v1.MeshNode\<close>), with the fields the resolver
  reads.
\<close>

record MeshNode =
  Id :: string
  PublicKey :: string
  HostPublicKey :: string
  PrimaryEndpoint :: string
  WireguardEndpoints :: "string list"
  ZoneAwarenessId :: string
  Multiaddrs :: "string list"
  PrivateIpv4 :: string
  PrivateIpv6 :: string
  Features :: "string list"
  JoinedAt :: int

record Edge =
  Source :: string
  Target :: string
  Weight :: int
  Attributes :: "(string \<times> string) list"

record Route =
  RouteName :: string
  RouteNode :: string
  RouteDestinationCidrs :: "string list"

datatype ConnectProtocol = CONNECT_NATIVE | CONNECT_ICE | CONNECT_LIBP2P

record WireGuardPeer =
  Node :: MeshNode
  Proto :: ConnectProtocol
  AllowedIps :: "string list"
  AllowedRoutes :: "string list"

text \<open>
  \<open>networking.AdjacencyMap\<close> is a Go map from node id to a map from neighbour id to
  edge. Both levels are association lists; the order of a list is the order in which a
  \<open>range\<close> over the map yields its entries, which Go leaves open. \<open>adjacent\<close> is the
  lookup \<open>adjacencyMap[id]\<close>, the empty map for a missing key.
\<close>

type_synonym AdjacencyMap = "(string \<times> (string \<times> Edge) list) list"

definition adjacent :: "AdjacencyMap \<Rightarrow> string \<Rightarrow> (string \<times> Edge) list" where
  "adjacent adjacencyMap nodeID =
     (case map_of adjacencyMap nodeID of None \<Rightarrow> [] | Some targets \<Rightarrow> targets)"

text \<open>
  The mesh storage as the resolver sees it: the peer graph (vertices and undirected
  edges), the routes by owning node, the network ACLs and the group lookup. The route
  lookup is a function so that a storage failure is a possible answer.
\<close>

record MeshStorage =
  Vertices :: "MeshNode list"
  Edges :: "Edge list"
  RoutesByNode :: "string \<Rightarrow> error + Route list"
  NetworkACLs :: "error + ACL list"
  Groups :: GetGroup

subsection \<open>Helpers of the repository that are not under src/\<close>

text \<open>
  Modelled from the spec: \<open>graph.Vertex\<close> of the peer graph, which is not under src/.
  Nodes are kept in one table and referenced by id (spec, section 9); a missing id is
  an error.
\<close>

definition Vertex :: "MeshStorage \<Rightarrow> string \<Rightarrow> error + MeshNode" where
  "Vertex st nodeID =
     (case find (\<lambda>n. Id n = nodeID) (Vertices st) of
        None \<Rightarrow> Inl ErrVertexNotFound
      | Some n \<Rightarrow> Inr n)"

text \<open>
  Modelled from the spec: \<open>MeshNode.PrivateAddrV4\<close> and \<open>MeshNode.PrivateAddrV6\<close>,
  which are not under src/. The node's private /32 and /128, ``whichever are
  configured'' (spec, section 4.4, step 4); \<open>None\<close> is the prefix that is not valid.
\<close>

definition PrivateAddrV4 :: "'p NetIP \<Rightarrow> MeshNode \<Rightarrow> 'p option" where
  "PrivateAddrV4 ip node = (if PrivateIpv4 node = [] then None else ParsePrefix ip (PrivateIpv4 node))"

definition PrivateAddrV6 :: "'p NetIP \<Rightarrow> MeshNode \<Rightarrow> 'p option" where
  "PrivateAddrV6 ip node = (if PrivateIpv6 node = [] then None else ParsePrefix ip (PrivateIpv6 node))"

text \<open>
  Modelled from the spec: \<open>peers.ProtoFromEdgeAttrs\<close>, which is not under src/. An edge
  carries its transport preference in its attribute map (spec, section 3).
\<close>

definition ProtoFromEdgeAttrs :: "(string \<times> string) list \<Rightarrow> ConnectProtocol" where
  "ProtoFromEdgeAttrs attrs =
     (if ''ice'' \<in> fst ` set attrs then CONNECT_ICE
      else if ''libp2p'' \<in> fst ` set attrs then CONNECT_LIBP2P
      else CONNECT_NATIVE)"

text \<open>
  Modelled from the spec: the adjacency map of the peer graph, which is not under src/.
  An edge \<open>{a, b}\<close> is stored once and means adjacency in both directions (spec,
  section 3, invariant 4). Every vertex is a key; its neighbours come in the order of
  the edge table.
\<close>

fun neighbours :: "string \<Rightarrow> Edge list \<Rightarrow> (string \<times> Edge) list" where
  "neighbours v [] = []"
| "neighbours v (e # es) =
     (if Source e = v then (Target e, e) # neighbours v es
      else if Target e = v then (Source e, e) # neighbours v es
      else neighbours v es)"

definition GraphAdjacencyMap :: "MeshStorage \<Rightarrow> AdjacencyMap" where
  "GraphAdjacencyMap st = map (\<lambda>n. (Id n, neighbours (Id n) (Edges st))) (Vertices st)"

text \<open>
  Modelled from the spec: \<open>networking.FilterGraph\<close>, which is not under src/. Step 1 of
  section 4.4: an edge \<open>(a, b)\<close> stays iff the ACLs, in descending priority, accept the
  action with source \<open>a\<close> and destination \<open>b\<close>, any CIDR, any protocol and port 0. In
  an action, ``any'' is the empty field: \<open>Matches\<close> skips the test of an empty field.
  The verdict of \<open>Accept\<close> is used; what \<open>Matches\<close> writes into the ACLs is not
  carried from one edge to the next.
\<close>

definition edgeAction :: "string \<Rightarrow> string \<Rightarrow> NetworkAction" where
  "edgeAction a b =
     \<lparr>SrcNode = a, SrcCidr = [], DstNode = b, DstCidr = [], Protocol = [], Port = 0\<rparr>"

definition FilterGraph :: "MeshStorage \<Rightarrow> string \<Rightarrow> error + AdjacencyMap" where
  "FilterGraph st peerID =
     (case NetworkACLs st of
        Inl err \<Rightarrow> Inl err
      | Inr acls \<Rightarrow>
          Inr (map (\<lambda>(a, targets).
                      (a, filter (\<lambda>(b, e). fst (Accept (Groups st) (Sort SortDescending acls) (edgeAction a b)))
                            targets))
                 (GraphAdjacencyMap st)))"

subsection \<open>The resolver\<close>

text \<open>
  The loop that both \<open>recursePeers\<close> and \<open>recurseEdges\<close> run over the destination
  CIDRs of a node's routes; the two nested \<open>range\<close> loops visit the CIDRs in the order
  of the concatenation. A CIDR that does not parse ends the resolution with an error.
\<close>

fun addCidrs :: "'p NetIP \<Rightarrow> 'p list \<Rightarrow> string list \<Rightarrow> 'p list \<Rightarrow> error + 'p list" where
  "addCidrs ip thisRoutes [] allowedIPs = Inr allowedIPs"
| "addCidrs ip thisRoutes (cidr # rest) allowedIPs =
     (case ParsePrefix ip cidr of
        None \<Rightarrow> Inl ErrParsePrefix
      | Some prefix \<Rightarrow>
          addCidrs ip thisRoutes rest
            (if prefix \<notin> set allowedIPs \<and> prefix \<notin> set thisRoutes
             then allowedIPs @ [prefix] else allowedIPs))"

definition routeCidrs :: "Route list \<Rightarrow> string list" where
  "routeCidrs routes = concat (map RouteDestinationCidrs routes)"

text \<open>\<open>for _, x := range xs { if !slices.Contains(acc, x) { acc = append(acc, x) } }\<close>\<close>

fun appendMissing :: "'a list \<Rightarrow> 'a list \<Rightarrow> 'a list" where
  "appendMissing acc [] = acc"
| "appendMissing acc (x # xs) =
     appendMissing (if x \<in> set acc then acc else acc @ [x]) xs"

definition ownAddrs :: "'p NetIP \<Rightarrow> MeshNode \<Rightarrow> 'p list" where
  "ownAddrs ip node =
     (case PrivateAddrV4 ip node of None \<Rightarrow> [] | Some a \<Rightarrow> [a]) @
     (case PrivateAddrV6 ip node of None \<Rightarrow> [] | Some a \<Rightarrow> [a])"

text \<open>
  \<open>recurseEdges\<close> with its loop over the targets of the node, \<open>recurseTargets\<close>. The
  \<open>visited\<close> map is shared by all recursive calls, so it is threaded through and
  returned. The first argument bounds the depth of the recursion: \<open>None\<close> means the
  bound was too small, never a result of the Go code. \<open>WireGuardPeersOver\<close> below
  starts with a bound that is proved to be enough.
\<close>

fun recurseEdges ::
    "nat \<Rightarrow> 'p NetIP \<Rightarrow> MeshStorage \<Rightarrow> AdjacencyMap \<Rightarrow> string \<Rightarrow> 'p list \<Rightarrow> MeshNode
      \<Rightarrow> string set \<Rightarrow> (error + 'p list \<times> 'p list \<times> string set) option"
  and recurseTargets ::
    "nat \<Rightarrow> 'p NetIP \<Rightarrow> MeshStorage \<Rightarrow> AdjacencyMap \<Rightarrow> string \<Rightarrow> 'p list
      \<Rightarrow> (string \<times> Edge) list \<Rightarrow> string set \<Rightarrow> 'p list \<Rightarrow> 'p list
      \<Rightarrow> (error + 'p list \<times> 'p list \<times> string set) option"
where
  "recurseEdges 0 ip st adjacencyMap thisPeer thisRoutes node visited = None"
| "recurseEdges (Suc n) ip st adjacencyMap thisPeer thisRoutes node visited =
     recurseTargets n ip st adjacencyMap thisPeer thisRoutes
       (adjacent adjacencyMap (Id node)) (insert (Id node) visited) [] []"
| "recurseTargets n ip st adjacencyMap thisPeer thisRoutes [] visited allowedIPs allowedRoutes =
     Some (Inr (allowedIPs, allowedRoutes, visited))"
| "recurseTargets n ip st adjacencyMap thisPeer thisRoutes ((target, e) # rest) visited
       allowedIPs allowedRoutes =
     (if target = thisPeer then
        recurseTargets n ip st adjacencyMap thisPeer thisRoutes rest visited allowedIPs allowedRoutes
      else if target \<in> fst ` set (adjacent adjacencyMap thisPeer) then
        recurseTargets n ip st adjacencyMap thisPeer thisRoutes rest visited allowedIPs allowedRoutes
      else if target \<in> visited then
        recurseTargets n ip st adjacencyMap thisPeer thisRoutes rest visited allowedIPs allowedRoutes
      else
        (case Vertex st target of
           Inl err \<Rightarrow> Some (Inl err)
         | Inr targetNode \<Rightarrow>
             if PublicKey targetNode = [] then
               recurseTargets n ip st adjacencyMap thisPeer thisRoutes rest
                 (insert target visited) allowedIPs allowedRoutes
             else
               (case RoutesByNode st (Id targetNode) of
                  Inl err \<Rightarrow> Some (Inl err)
                | Inr routes \<Rightarrow>
                    (case addCidrs ip thisRoutes (routeCidrs routes)
                            (allowedIPs @ ownAddrs ip targetNode) of
                       Inl err \<Rightarrow> Some (Inl err)
                     | Inr allowedIPs' \<Rightarrow>
                         (case recurseEdges n ip st adjacencyMap thisPeer thisRoutes targetNode
                                 (insert target visited) of
                            None \<Rightarrow> None
                          | Some (Inl err) \<Rightarrow> Some (Inl err)
                          | Some (Inr (ips, ipRoutes, visited')) \<Rightarrow>
                              recurseTargets n ip st adjacencyMap thisPeer thisRoutes rest visited'
                                (appendMissing allowedIPs' ips)
                                (appendMissing allowedRoutes ipRoutes))))))"

text \<open>
  The depth bound: one more than the number of neighbour entries in the adjacency map.
\<close>

definition enoughFuel :: "AdjacencyMap \<Rightarrow> nat" where
  "enoughFuel adjacencyMap = Suc (length (concat (map (\<lambda>(a, targets). map fst targets) adjacencyMap)))"

definition recursePeers ::
    "'p NetIP \<Rightarrow> MeshStorage \<Rightarrow> AdjacencyMap \<Rightarrow> string \<Rightarrow> 'p list \<Rightarrow> MeshNode
      \<Rightarrow> (error + 'p list \<times> 'p list) option" where
  "recursePeers ip st adjacencyMap thisPeer thisRoutes node =
     (case RoutesByNode st (Id node) of
        Inl err \<Rightarrow> Some (Inl err)
      | Inr routes \<Rightarrow>
          (case addCidrs ip thisRoutes (routeCidrs routes) (ownAddrs ip node) of
             Inl err \<Rightarrow> Some (Inl err)
           | Inr allowedIPs \<Rightarrow>
               (case recurseEdges (enoughFuel adjacencyMap) ip st adjacencyMap thisPeer thisRoutes
                       node {} of
                  None \<Rightarrow> None
                | Some (Inl err) \<Rightarrow> Some (Inl err)
                | Some (Inr (edgeIPs, edgeRoutes, visited)) \<Rightarrow>
                    Some (Inr (appendMissing allowedIPs edgeIPs, appendMissing [] edgeRoutes)))))"

text \<open>The choice of the preferred WireGuard endpoint in \<open>WireGuardPeersFor\<close>.\<close>

definition primaryEndpoint :: "MeshNode \<Rightarrow> string" where
  "primaryEndpoint node =
     (let fromPrimary =
            (if PrimaryEndpoint node \<noteq> [] then
               (case find (\<lambda>endpoint. HasPrefix endpoint (PrimaryEndpoint node))
                       (WireguardEndpoints node) of
                  None \<Rightarrow> []
                | Some endpoint \<Rightarrow> endpoint)
             else [])
      in if fromPrimary = [] \<and> 0 < length (WireguardEndpoints node)
         then hd (WireguardEndpoints node) else fromPrimary)"

definition peerNode :: "'p NetIP \<Rightarrow> MeshNode \<Rightarrow> MeshNode" where
  "peerNode ip node =
     \<lparr>Id = Id node,
      PublicKey = PublicKey node,
      HostPublicKey = HostPublicKey node,
      PrimaryEndpoint = primaryEndpoint node,
      WireguardEndpoints = WireguardEndpoints node,
      ZoneAwarenessId = ZoneAwarenessId node,
      Multiaddrs = Multiaddrs node,
      PrivateIpv4 = (case PrivateAddrV4 ip node of None \<Rightarrow> [] | Some a \<Rightarrow> PrefixString ip a),
      PrivateIpv6 = (case PrivateAddrV6 ip node of None \<Rightarrow> [] | Some a \<Rightarrow> PrefixString ip a),
      Features = Features node,
      JoinedAt = JoinedAt node\<rparr>"

text \<open>
  The loop of \<open>WireGuardPeersFor\<close> over \<open>directAdjacents\<close>, in the iteration order of
  that map; \<open>out\<close> is appended to and returned as it is.
\<close>

fun peersLoop ::
    "'p NetIP \<Rightarrow> MeshStorage \<Rightarrow> AdjacencyMap \<Rightarrow> string \<Rightarrow> 'p list \<Rightarrow> (string \<times> Edge) list
      \<Rightarrow> WireGuardPeer list \<Rightarrow> (error + WireGuardPeer list) option" where
  "peersLoop ip st adjacencyMap peerID ourRoutes [] out = Some (Inr out)"
| "peersLoop ip st adjacencyMap peerID ourRoutes ((adj, e) # rest) out =
     (case Vertex st adj of
        Inl err \<Rightarrow> Some (Inl err)
      | Inr node \<Rightarrow>
          if PublicKey node = [] then peersLoop ip st adjacencyMap peerID ourRoutes rest out
          else
            (case recursePeers ip st adjacencyMap peerID ourRoutes node of
               None \<Rightarrow> None
             | Some (Inl err) \<Rightarrow> Some (Inl err)
             | Some (Inr (allowedIPs, allowedRoutes)) \<Rightarrow>
                 peersLoop ip st adjacencyMap peerID ourRoutes rest
                   (out @ [\<lparr>Node = peerNode ip node,
                            Proto = ProtoFromEdgeAttrs (Attributes e),
                            AllowedIps = map (PrefixString ip) allowedIPs,
                            AllowedRoutes = map (PrefixString ip) allowedRoutes\<rparr>])))"

text \<open>
  \<open>WireGuardPeersFor\<close> from the line after the call of \<open>FilterGraph\<close>: the routes of
  the requesting node, then the loop.
\<close>

definition WireGuardPeersOver ::
    "'p NetIP \<Rightarrow> MeshStorage \<Rightarrow> AdjacencyMap \<Rightarrow> string \<Rightarrow> (error + WireGuardPeer list) option" where
  "WireGuardPeersOver ip st adjacencyMap peerID =
     (case RoutesByNode st peerID of
        Inl err \<Rightarrow> Some (Inl err)
      | Inr routes \<Rightarrow>
          (case those (map (ParsePrefix ip) (routeCidrs routes)) of
             None \<Rightarrow> Some (Inl ErrParsePrefix)
           | Some ourRoutes \<Rightarrow>
               peersLoop ip st adjacencyMap peerID ourRoutes (adjacent adjacencyMap peerID) []))"

definition WireGuardPeersFor ::
    "'p NetIP \<Rightarrow> MeshStorage \<Rightarrow> string \<Rightarrow> (error + WireGuardPeer list) option" where
  "WireGuardPeersFor ip st peerID =
     (case FilterGraph st peerID of
        Inl err \<Rightarrow> Some (Inl err)
      | Inr adjacencyMap \<Rightarrow> WireGuardPeersOver ip st adjacencyMap peerID)"

section \<open>Raft snapshots (package snapshots)\<close>

subsection \<open>Tables\<close>

text \<open>
  The rows of package \<open>raftdb\<close>, with the fields that \<open>Restore\<close> names. Times are
  numbers; a nullable column is an option.
\<close>

record MeshStateRow =
  Key :: string
  Value :: string

record NodeRow =
  NodeID :: string
  NodePublicKey :: "string option"
  RaftPort :: int
  GrpcPort :: int
  WireguardPort :: int
  PublicEndpoint :: "string option"
  NetworkIpv6 :: "string option"
  NodeCreatedAt :: int
  NodeUpdatedAt :: int

record LeaseRow =
  LeaseNodeID :: string
  Ipv4 :: string
  LeaseCreatedAt :: int

record RaftAclRow =
  AclName :: string
  AclNodes :: string
  AclAction :: int
  AclCreatedAt :: int
  AclUpdatedAt :: int

record NodeEdgeRow =
  SrcNodeID :: string
  DstNodeID :: string
  EdgeWeight :: int

text \<open>The database: one list of rows per table, in insertion order.\<close>

record DB =
  mesh_state :: "MeshStateRow list"
  nodes :: "NodeRow list"
  leases :: "LeaseRow list"
  raft_acls :: "RaftAclRow list"
  node_edges :: "NodeEdgeRow list"

record snapshotModel =
  State :: "MeshStateRow list"
  Nodes :: "NodeRow list"
  Leases :: "LeaseRow list"
  RaftACLs :: "RaftAclRow list"
  NodeEdges :: "NodeEdgeRow list"

subsection \<open>Transactions of Go's database/sql\<close>

text \<open>
  A transaction works on its own copy of the tables. After \<open>Commit\<close> or \<open>Rollback\<close>
  it is done: every later statement on it, and a later \<open>Commit\<close> or \<open>Rollback\<close>,
  returns \<open>sql.ErrTxDone\<close>.
\<close>

record Tx =
  tables :: DB
  txDone :: bool

definition Begin :: "DB \<Rightarrow> Tx" where
  "Begin db = \<lparr>tables = db, txDone = False\<rparr>"

definition Rollback :: "Tx \<Rightarrow> error option \<times> Tx" where
  "Rollback tx = (if txDone tx then (Some ErrTxDone, tx) else (None, tx\<lparr>txDone := True\<rparr>))"

text \<open>A statement run through the transaction: refused once the transaction is done.\<close>

definition exec :: "(DB \<Rightarrow> DB) \<Rightarrow> Tx \<Rightarrow> error + Tx" where
  "exec stmt tx = (if txDone tx then Inl ErrTxDone else Inr (tx\<lparr>tables := stmt (tables tx)\<rparr>))"

text \<open>
  \<open>Commit\<close> on the database \<open>db\<close> the transaction was begun on: the tables of the
  transaction become the tables of the database.
\<close>

definition Commit :: "DB \<Rightarrow> Tx \<Rightarrow> error option \<times> DB" where
  "Commit db tx = (if txDone tx then (Some ErrTxDone, db) else (None, tables tx))"

subsection \<open>Queries of package raftdb that are not under src/\<close>

text \<open>
  Modelled from the spec: the generated queries \<open>Dump*\<close>, \<open>Drop*\<close> and \<open>Restore*\<close>
  of package \<open>raftdb\<close>, of which only the interface is under src/. A dump lists a
  table in insertion order, a drop empties it, a restore inserts one row built from
  its parameters (spec, section 6, snapshot format). \<open>RestoreNodeEdge\<close> is given the
  two node ids only, so the weight of the new row is the column's default,
  \<open>defaultWeight\<close>.
\<close>

definition DropMeshState :: "Tx \<Rightarrow> error + Tx" where
  "DropMeshState = exec (\<lambda>db. db\<lparr>mesh_state := []\<rparr>)"

definition DropNodes :: "Tx \<Rightarrow> error + Tx" where
  "DropNodes = exec (\<lambda>db. db\<lparr>nodes := []\<rparr>)"

definition DropLeases :: "Tx \<Rightarrow> error + Tx" where
  "DropLeases = exec (\<lambda>db. db\<lparr>leases := []\<rparr>)"

definition DropRaftACLs :: "Tx \<Rightarrow> error + Tx" where
  "DropRaftACLs = exec (\<lambda>db. db\<lparr>raft_acls := []\<rparr>)"

definition DropNodeEdges :: "Tx \<Rightarrow> error + Tx" where
  "DropNodeEdges = exec (\<lambda>db. db\<lparr>node_edges := []\<rparr>)"

definition RestoreMeshState :: "MeshStateRow \<Rightarrow> Tx \<Rightarrow> error + Tx" where
  "RestoreMeshState arg = exec (\<lambda>db. db\<lparr>mesh_state := mesh_state db @ [arg]\<rparr>)"

definition RestoreNode :: "NodeRow \<Rightarrow> Tx \<Rightarrow> error + Tx" where
  "RestoreNode arg = exec (\<lambda>db. db\<lparr>nodes := nodes db @ [arg]\<rparr>)"

definition RestoreLease :: "LeaseRow \<Rightarrow> Tx \<Rightarrow> error + Tx" where
  "RestoreLease arg = exec (\<lambda>db. db\<lparr>leases := leases db @ [arg]\<rparr>)"

definition RestoreRaftACL :: "RaftAclRow \<Rightarrow> Tx \<Rightarrow> error + Tx" where
  "RestoreRaftACL arg = exec (\<lambda>db. db\<lparr>raft_acls := raft_acls db @ [arg]\<rparr>)"

definition RestoreNodeEdge :: "int \<Rightarrow> string \<Rightarrow> string \<Rightarrow> Tx \<Rightarrow> error + Tx" where
  "RestoreNodeEdge defaultWeight src dst =
     exec (\<lambda>db. db\<lparr>node_edges := node_edges db @
             [\<lparr>SrcNodeID = src, DstNodeID = dst, EdgeWeight = defaultWeight\<rparr>]\<rparr>)"

subsection \<open>Snapshot and Restore\<close>

text \<open>
  \<open>snapshotter.Snapshot\<close>: the five dumps, read from the database itself. The gzip
  and JSON encoding is taken to be lossless, so the snapshot is the model.
\<close>

definition Snapshot :: "DB \<Rightarrow> error + snapshotModel" where
  "Snapshot db =
     Inr \<lparr>State = mesh_state db, Nodes = nodes db, Leases = leases db,
          RaftACLs = raft_acls db, NodeEdges = node_edges db\<rparr>"

text \<open>One \<open>for ... range\<close> loop of \<open>Restore\<close>: stop at the first error.\<close>

fun forEach :: "('a \<Rightarrow> Tx \<Rightarrow> error + Tx) \<Rightarrow> 'a list \<Rightarrow> Tx \<Rightarrow> error + Tx" where
  "forEach f [] tx = Inr tx"
| "forEach f (x # xs) tx = (case f x tx of Inl err \<Rightarrow> Inl err | Inr tx' \<Rightarrow> forEach f xs tx')"

definition andThen :: "error + Tx \<Rightarrow> (Tx \<Rightarrow> error + Tx) \<Rightarrow> error + Tx" where
  "andThen r f = (case r of Inl err \<Rightarrow> Inl err | Inr tx \<Rightarrow> f tx)"

text \<open>
  The statements \<open>Restore\<close> runs through \<open>q := raftdb.New(tx)\<close>: the five drops, then
  the five loops. The node record is copied field by field, the edge is restored from
  its two ids (``Weight is not being restored'').
\<close>

definition restoreTables :: "int \<Rightarrow> snapshotModel \<Rightarrow> Tx \<Rightarrow> error + Tx" where
  "restoreTables defaultWeight model tx =
     andThen (andThen (andThen (andThen (andThen (andThen (andThen (andThen (andThen
       (DropMeshState tx)
       DropNodes)
       DropLeases)
       DropRaftACLs)
       DropNodeEdges)
       (forEach (\<lambda>state. RestoreMeshState \<lparr>Key = Key state, Value = Value state\<rparr>) (State model)))
       (forEach (\<lambda>node. RestoreNode
           \<lparr>NodeID = NodeID node, NodePublicKey = NodePublicKey node, RaftPort = RaftPort node,
            GrpcPort = GrpcPort node, WireguardPort = WireguardPort node,
            PublicEndpoint = PublicEndpoint node, NetworkIpv6 = NetworkIpv6 node,
            NodeCreatedAt = NodeCreatedAt node, NodeUpdatedAt = NodeUpdatedAt node\<rparr>) (Nodes model)))
       (forEach (\<lambda>lease. RestoreLease
           \<lparr>LeaseNodeID = LeaseNodeID lease, Ipv4 = Ipv4 lease,
            LeaseCreatedAt = LeaseCreatedAt lease\<rparr>) (Leases model)))
       (forEach (\<lambda>acl. RestoreRaftACL
           \<lparr>AclName = AclName acl, AclNodes = AclNodes acl, AclAction = AclAction acl,
            AclCreatedAt = AclCreatedAt acl, AclUpdatedAt = AclUpdatedAt acl\<rparr>) (RaftACLs model)))
       (forEach (\<lambda>e. RestoreNodeEdge defaultWeight (SrcNodeID e) (DstNodeID e)) (NodeEdges model))"

text \<open>
  \<open>snapshotter.Restore\<close> on the database \<open>db\<close>, after the snapshot has been decoded.
  The closure that calls \<open>tx.Rollback()\<close> is invoked where it is written, right
  after \<open>s.db.Begin()\<close>: it is not deferred. Its error is only logged. The result is
  the returned error and the database afterwards. A failing \<open>Begin\<close> and a snapshot
  that does not decode end \<open>Restore\<close> before any statement and are left out.
\<close>

definition Restore :: "int \<Rightarrow> snapshotModel \<Rightarrow> DB \<Rightarrow> error option \<times> DB" where
  "Restore defaultWeight model db =
     (let tx = snd (Rollback (Begin db)) in
      case restoreTables defaultWeight model tx of
        Inl err \<Rightarrow> (Some err, db)
      | Inr tx' \<Rightarrow> Commit db tx')"

section \<open>The raft observer (store.observe)\<close>

datatype ServerSuffrage = Voter | Nonvoter | Staging

record Server =
  Suffrage :: ServerSuffrage
  ServerID :: string
  ServerAddress :: string

datatype Observation =
    RequestVoteRequest
  | RaftState
  | PeerObservation Server bool
  | LeaderObservation string
  | ResumedHeartbeatObservation string
  | FailedHeartbeatObservation string

datatype WatchEvent = NODE_LEAVE | NODE_JOIN | LEADER_CHANGE

text \<open>
  What the observer goroutine reads and writes: its local map \<open>failedHeartbeats\<close>, the
  raft configuration, whether this node is the leader, the node records of the peers
  store, the events handed to the plugins and the number of peer refreshes asked of the
  network manager. \<open>removeServerFails\<close> and \<open>deleteFails\<close> say whether
  \<open>RemoveServer\<close> and \<open>peers.Delete\<close> return an error, which the observer only logs.
\<close>

record observer =
  failedHeartbeats :: "string \<rightharpoonup> int"
  servers :: "Server list"
  isLeader :: bool
  peerRecords :: "string list"
  emitted :: "(WatchEvent \<times> string) list"
  refreshes :: nat
  testStore :: bool
  removeServerFails :: bool
  deleteFails :: bool

text \<open>Reading a Go map: the zero value for a missing key.\<close>

definition failedCount :: "observer \<Rightarrow> string \<Rightarrow> int" where
  "failedCount s peer = (case failedHeartbeats s peer of None \<Rightarrow> 0 | Some c \<Rightarrow> c)"

text \<open>
  Modelled from the spec: \<open>store.RemoveServer\<close> and \<open>peers.Delete\<close>, which are not
  under src/: \<open>remove_server(id)\<close> takes the server out of the configuration, the
  delete removes the node record (spec, sections 4.1 and 4.3).
\<close>

definition RemoveServer :: "string \<Rightarrow> observer \<Rightarrow> observer" where
  "RemoveServer peer s =
     (if removeServerFails s then s
      else s\<lparr>servers := filter (\<lambda>srv. ServerID srv \<noteq> peer) (servers s)\<rparr>)"

definition DeletePeer :: "string \<Rightarrow> observer \<Rightarrow> observer" where
  "DeletePeer peer s =
     (if deleteFails s then s
      else s\<lparr>peerRecords := filter (\<lambda>n. n \<noteq> peer) (peerRecords s)\<rparr>)"

text \<open>
  The loop over \<open>cfg.Servers\<close> in the \<open>FailedHeartbeatObservation\<close> case; \<open>cfg\<close> is
  read once, before the loop.
\<close>

fun removeNonvoter :: "string \<Rightarrow> Server list \<Rightarrow> observer \<Rightarrow> observer" where
  "removeNonvoter peer [] s = s"
| "removeNonvoter peer (srv # cfg) s =
     (if ServerID srv = peer \<and> Suffrage srv = Nonvoter
      then removeNonvoter peer cfg (DeletePeer peer (RemoveServer peer s))
      else removeNonvoter peer cfg s)"

text \<open>One iteration of the \<open>select\<close> loop of \<open>observe\<close> for one observation.\<close>

fun observeStep :: "observer \<Rightarrow> Observation \<Rightarrow> observer" where
  "observeStep s RequestVoteRequest = s"
| "observeStep s RaftState = s"
| "observeStep s (PeerObservation peer removed) =
     (if testStore s then s
      else
        (let s1 = s\<lparr>refreshes := Suc (refreshes s)\<rparr> in
         if ServerID peer \<notin> set (peerRecords s1) then s1
         else s1\<lparr>emitted := emitted s1 @
                 [(if removed then NODE_LEAVE else NODE_JOIN, ServerID peer)]\<rparr>))"
| "observeStep s (LeaderObservation leaderID) =
     (if leaderID \<notin> set (peerRecords s) then s
      else s\<lparr>emitted := emitted s @ [(LEADER_CHANGE, leaderID)]\<rparr>)"
| "observeStep s (ResumedHeartbeatObservation peer) = s"
| "observeStep s (FailedHeartbeatObservation peer) =
     (if failedCount s peer > 30 then
        (let s1 = (if isLeader s then removeNonvoter peer (servers s) s else s)
         in s1\<lparr>failedHeartbeats := (failedHeartbeats s1)(peer := None)\<rparr>)
      else if failedCount s peer = 0 then
        s\<lparr>failedHeartbeats := (failedHeartbeats s)(peer \<mapsto> 1)\<rparr>
      else
        s\<lparr>failedHeartbeats := (failedHeartbeats s)(peer \<mapsto> failedCount s peer + 1)\<rparr>)"

text \<open>The observer run over the observations as they arrive on the channel.\<close>

definition observe :: "observer \<Rightarrow> Observation list \<Rightarrow> observer" where
  "observe s evs = foldl observeStep s evs"

section \<open>Leaving the mesh (membership.Server.Leave)\<close>

text \<open>
  The effects of \<open>Leave\<close> on the cluster, kept in the order in which they happen.
\<close>

datatype effect = RemovedServer string | WaitedBarrier | DeletedNode string

record PeersDB =
  nodeIDs :: "string list"
  leaseNodes :: "string list"
  asnNodes :: "string list"
  edgePairs :: "(string \<times> string) list"

text \<open>
  The membership server with what \<open>Leave\<close> reads of its store and of the request's
  context: \<open>proxiedFor\<close> is the proxied-for header, \<open>authenticatedCaller\<close> the
  authenticated peer. \<open>removeFails\<close> and \<open>peerDeleteFails\<close> say whether
  \<open>RemoveServer\<close> and \<open>peers.Delete\<close> return an error.
\<close>

record membership =
  leader :: bool
  insecure :: bool
  proxiedFor :: "string option"
  authenticatedCaller :: "string option"
  configuration :: "error + Server list"
  removeFails :: bool
  peerDeleteFails :: bool
  peersDB :: PeersDB
  effects :: "effect list"

text \<open>
  Modelled from the spec: \<open>Raft().RemoveServer\<close>, \<open>Raft().Barrier\<close> and
  \<open>peers.Delete\<close>, which are not under src/. Deleting the node ``cascades through
  live queries to delete leases, asns, edges'' (spec, section 4.3). Every call is
  recorded in \<open>effects\<close>, also one that fails.
\<close>

definition raftRemoveServer :: "string \<Rightarrow> membership \<Rightarrow> error option \<times> membership" where
  "raftRemoveServer nodeID s =
     (let s' = s\<lparr>effects := effects s @ [RemovedServer nodeID]\<rparr> in
      if removeFails s then (Some ErrInternal, s')
      else (None, s'\<lparr>configuration :=
              map_sum id (filter (\<lambda>srv. ServerID srv \<noteq> nodeID)) (configuration s)\<rparr>))"

definition raftBarrier :: "membership \<Rightarrow> membership" where
  "raftBarrier s = s\<lparr>effects := effects s @ [WaitedBarrier]\<rparr>"

definition cascadeDelete :: "string \<Rightarrow> PeersDB \<Rightarrow> PeersDB" where
  "cascadeDelete nodeID db =
     \<lparr>nodeIDs = filter (\<lambda>n. n \<noteq> nodeID) (nodeIDs db),
      leaseNodes = filter (\<lambda>n. n \<noteq> nodeID) (leaseNodes db),
      asnNodes = filter (\<lambda>n. n \<noteq> nodeID) (asnNodes db),
      edgePairs = filter (\<lambda>(a, b). a \<noteq> nodeID \<and> b \<noteq> nodeID) (edgePairs db)\<rparr>"

definition peersDelete :: "string \<Rightarrow> membership \<Rightarrow> error option \<times> membership" where
  "peersDelete nodeID s =
     (let s' = s\<lparr>effects := effects s @ [DeletedNode nodeID]\<rparr> in
      if peerDeleteFails s then (Some ErrInternal, s')
      else (None, s'\<lparr>peersDB := cascadeDelete nodeID (peersDB s)\<rparr>))"

text \<open>The check that the caller is the node it names (skipped when insecure).\<close>

definition authorized :: "membership \<Rightarrow> string \<Rightarrow> bool" where
  "authorized s nodeID =
     (insecure s \<or>
      (case proxiedFor s of
         Some p \<Rightarrow> p = nodeID
       | None \<Rightarrow> (case authenticatedCaller s of Some peer \<Rightarrow> peer = nodeID | None \<Rightarrow> False)))"

text \<open>
  \<open>Server.Leave\<close>. The barrier is registered with \<open>defer\<close> when the node is a raft
  member, so it runs when the function returns: after the node record has been
  deleted, or after a failed \<open>RemoveServer\<close>.
\<close>

definition Leave :: "membership \<Rightarrow> string \<Rightarrow> (error + unit) \<times> membership" where
  "Leave s reqId =
     (if reqId = [] then (Inl ErrInvalidArgument, s)
      else if \<not> leader s then (Inl ErrFailedPrecondition, s)
      else if \<not> authorized s reqId then (Inl ErrPermissionDenied, s)
      else
        (case configuration s of
           Inl err \<Rightarrow> (Inl ErrInternal, s)
         | Inr cfgServers \<Rightarrow>
             if list_ex (\<lambda>srv. ServerID srv = reqId) cfgServers then
               (case raftRemoveServer reqId s of
                  (Some err, s1) \<Rightarrow> (Inl ErrInternal, raftBarrier s1)
                | (None, s1) \<Rightarrow>
                    (case peersDelete reqId s1 of
                       (Some err, s2) \<Rightarrow> (Inl ErrInternal, raftBarrier s2)
                     | (None, s2) \<Rightarrow> (Inr (), raftBarrier s2)))
             else
               (case peersDelete reqId s of
                  (Some err, s2) \<Rightarrow> (Inl ErrInternal, s2)
                | (None, s2) \<Rightarrow> (Inr (), s2))))"

section \<open>What the expansion of group references leaves in a node list\<close>

text \<open>
  The functions of this section are not code of the repository. They say, without the
  two loops of \<open>Matches\<close>, what a node list holds after the expansion; the theorems
  on \<open>Matches\<close> compare the two.
\<close>

text \<open>
  \<open>mapIndex\<close> is the Go index expression \<open>groups[k]\<close> on the local map of
  \<open>Matches\<close>: the nil slice for a key that is absent.
\<close>

definition mapIndex :: "GroupsMap \<Rightarrow> string \<Rightarrow> string list" where
  "mapIndex groups k = (case map_of groups k of None \<Rightarrow> [] | Some members \<Rightarrow> members)"

text \<open>
  \<open>groupRef groupName\<close> is the list entry that refers to a group, \<open>"group:"+groupName\<close>
  in the source.
\<close>

definition groupRef :: "string \<Rightarrow> string" where
  "groupRef groupName = ''group:'' @ groupName"

text \<open>
  The names \<open>Matches\<close> collects from a group: those of its subjects of type
  \<open>SUBJECT_ALL\<close> or \<open>SUBJECT_NODE\<close>, in the order of the group.
\<close>

definition nodeSubjects :: "Group \<Rightarrow> string list" where
  "nodeSubjects grp =
     map SubjectName
       (filter (\<lambda>subject. SubjectType subject = SUBJECT_ALL \<or> SubjectType subject = SUBJECT_NODE)
          (Subjects grp))"

text \<open>
  \<open>groupMembers getGroup n\<close>: the node members of the group that the list entry \<open>n\<close>
  refers to; empty when \<open>n\<close> is no \<open>group:\<close> reference or the lookup returns an error.
\<close>

definition groupMembers :: "GetGroup \<Rightarrow> string \<Rightarrow> string list" where
  "groupMembers getGroup n =
     (if HasPrefix n ''group:'' then
        (case getGroup (TrimPrefix n ''group:'') of
           Inl err \<Rightarrow> []
         | Inr grp \<Rightarrow> nodeSubjects grp)
      else [])"

text \<open>
  \<open>lookupFails\<close>: some reference of the list names a group whose lookup returns an
  error other than \<open>ErrGroupNotFound\<close>.
\<close>

definition lookupFails :: "GetGroup \<Rightarrow> string list \<Rightarrow> bool" where
  "lookupFails getGroup ns =
     list_ex (\<lambda>n. HasPrefix n ''group:'' \<and>
                  (case getGroup (TrimPrefix n ''group:'') of
                     Inl err \<Rightarrow> err \<noteq> ErrGroupNotFound
                   | Inr grp \<Rightarrow> False)) ns"

text \<open>
  \<open>plainGroups\<close>: group names and member names are not themselves \<open>group:\<close>
  references. No entry of the list begins with \<open>group:group:\<close>, and no node member of
  a group that the list refers to begins with \<open>group:\<close>.
\<close>

definition plainGroups :: "GetGroup \<Rightarrow> string list \<Rightarrow> bool" where
  "plainGroups getGroup ns =
     list_all (\<lambda>n. \<not> HasPrefix n ''group:group:'' \<and>
                   list_all (\<lambda>m. \<not> HasPrefix m ''group:'') (groupMembers getGroup n)) ns"

text \<open>
  \<open>expandNodes\<close>: the list with every reference to a group that has node members
  replaced, in place, by those members, repeated as many times as the reference occurs
  in the list. The list itself when a lookup fails.
\<close>

definition expandNodes :: "GetGroup \<Rightarrow> string list \<Rightarrow> string list" where
  "expandNodes getGroup ns =
     (if lookupFails getGroup ns then ns
      else concat (map (\<lambda>n. if groupMembers getGroup n = [] then [n]
                            else concat (replicate (count_list ns n) (groupMembers getGroup n)))
                     ns))"

section \<open>What a descriptor may draw its addresses from\<close>

text \<open>
  \<open>openPath st adjacencyMap self d t\<close>: \<open>t\<close> is reached from the direct neighbour \<open>d\<close>
  along edges of the adjacency map through nodes that all have a public key (\<open>d\<close>
  included), none of which, after \<open>d\<close>, is \<open>self\<close> or a direct neighbour of \<open>self\<close>.
\<close>

inductive openPath :: "MeshStorage \<Rightarrow> AdjacencyMap \<Rightarrow> string \<Rightarrow> string \<Rightarrow> string \<Rightarrow> bool"
  for st :: MeshStorage and adjacencyMap :: AdjacencyMap and self :: string and d :: string
where
  start: "Vertex st d = Inr n \<Longrightarrow> PublicKey n \<noteq> [] \<Longrightarrow> openPath st adjacencyMap self d d"
| step: "openPath st adjacencyMap self d t \<Longrightarrow>
         u \<in> fst ` set (adjacent adjacencyMap t) \<Longrightarrow>
         u \<noteq> self \<Longrightarrow>
         u \<notin> fst ` set (adjacent adjacencyMap self) \<Longrightarrow>
         Vertex st u = Inr n \<Longrightarrow> PublicKey n \<noteq> [] \<Longrightarrow>
         openPath st adjacencyMap self d u"

text \<open>
  \<open>contributes ip st node p\<close>: the prefix \<open>p\<close> is one of the node's private addresses or
  parses from a destination CIDR of one of its routes.
\<close>

definition contributes :: "'p NetIP \<Rightarrow> MeshStorage \<Rightarrow> MeshNode \<Rightarrow> 'p \<Rightarrow> bool" where
  "contributes ip st node p =
     (p \<in> set (ownAddrs ip node) \<or>
      (\<exists>routes. RoutesByNode st (Id node) = Inr routes \<and>
         (\<exists>cidr\<in>set (routeCidrs routes). ParsePrefix ip cidr = Some p)))"

definition reachedFrom :: "'p NetIP \<Rightarrow> MeshStorage \<Rightarrow> AdjacencyMap \<Rightarrow> string \<Rightarrow> string \<Rightarrow> 'p \<Rightarrow> bool" where
  "reachedFrom ip st adjacencyMap self d p =
     (\<exists>t node. openPath st adjacencyMap self d t \<and> Vertex st t = Inr node
        \<and> PublicKey node \<noteq> [] \<and> contributes ip st node p)"

text \<open>Whether the loop of \<open>WireGuardPeersFor\<close> builds a descriptor for a neighbour.\<close>

definition hasPublicKey :: "MeshStorage \<Rightarrow> string \<Rightarrow> bool" where
  "hasPublicKey st nodeID =
     (case Vertex st nodeID of Inl err \<Rightarrow> False | Inr node \<Rightarrow> PublicKey node \<noteq> [])"

text \<open>The node ids of a list of descriptors, in the order of the list.\<close>

definition peerIDs :: "WireGuardPeer list \<Rightarrow> string list" where
  "peerIDs out = map (\<lambda>peer. Id (Node peer)) out"

text \<open>
  What the resolver guarantees of one descriptor: no allowed route, and every allowed IP
  is the text of a prefix drawn from a node on an open path from the descriptor's node.
\<close>

definition peerSound :: "'p NetIP \<Rightarrow> MeshStorage \<Rightarrow> AdjacencyMap \<Rightarrow> string \<Rightarrow> WireGuardPeer \<Rightarrow> bool" where
  "peerSound ip st adj self peer =
     (AllowedRoutes peer = [] \<and>
      (\<forall>a\<in>set (AllowedIps peer).
         \<exists>p. a = PrefixString ip p \<and> reachedFrom ip st adj self (Id (Node peer)) p))"

text \<open>The neighbour ids that occur in an adjacency map, with repetitions.\<close>

definition targetIDs :: "AdjacencyMap \<Rightarrow> string list" where
  "targetIDs adj = concat (map (\<lambda>(a, targets). map fst targets) adj)"

section \<open>Concrete inputs\<close>

text \<open>
  The allow-all policy that the test of the resolver installs (TestWireGuardPeers), the
  deny rule of the spec's scenario 5, and a rule that names a group.
\<close>

definition allowAll :: ACL where
  "allowAll = \<lparr>Name = ''allow-all'', Priority = 0, Action = ACTION_ACCEPT,
     SourceNodes = [''*''], DestinationNodes = [''*''], SourceCidrs = [''*''],
     DestinationCidrs = [''*''], Protocols = [], Ports = []\<rparr>"

definition denyP1P2 :: ACL where
  "denyP1P2 = \<lparr>Name = ''deny-p1-p2'', Priority = 100, Action = ACTION_DENY,
     SourceNodes = [''P1''], DestinationNodes = [''P2''], SourceCidrs = [],
     DestinationCidrs = [], Protocols = [], Ports = []\<rparr>"


definition noGroups :: GetGroup where
  "noGroups = (\<lambda>groupName. Inl ErrGroupNotFound)"


text \<open>
  A database with one row in every table, the edge with weight 5, and the empty
  database of a node that restores the snapshot.
\<close>

definition exampleDB :: DB where
  "exampleDB =
     \<lparr>mesh_state = [\<lparr>Key = ''IPv4Prefix'', Value = ''172.16.0.0/12''\<rparr>],
      nodes = [\<lparr>NodeID = ''a'', NodePublicKey = Some ''key-a'', RaftPort = 9443, GrpcPort = 8443,
                WireguardPort = 51820, PublicEndpoint = None, NetworkIpv6 = None,
                NodeCreatedAt = 1, NodeUpdatedAt = 1\<rparr>],
      leases = [\<lparr>LeaseNodeID = ''a'', Ipv4 = ''172.16.0.1/32'', LeaseCreatedAt = 1\<rparr>],
      raft_acls = [\<lparr>AclName = ''voters'', AclNodes = ''*'', AclAction = 1,
                    AclCreatedAt = 1, AclUpdatedAt = 1\<rparr>],
      node_edges = [\<lparr>SrcNodeID = ''a'', DstNodeID = ''b'', EdgeWeight = 5\<rparr>]\<rparr>"

definition exampleSnapshot :: snapshotModel where
  "exampleSnapshot =
     \<lparr>State = mesh_state exampleDB, Nodes = nodes exampleDB, Leases = leases exampleDB,
      RaftACLs = raft_acls exampleDB, NodeEdges = node_edges exampleDB\<rparr>"

definition emptyDB :: DB where
  "emptyDB = \<lparr>mesh_state = [], nodes = [], leases = [], raft_acls = [], node_edges = []\<rparr>"

text \<open>
  An observer on the leader, before any heartbeat has failed: the leader \<open>l\<close> is a
  voter, \<open>p\<close> is a non-voter and \<open>v\<close> a second voter.
\<close>

definition observer0 :: observer where
  "observer0 =
     \<lparr>failedHeartbeats = Map.empty,
      servers = [\<lparr>Suffrage = Voter, ServerID = ''l'', ServerAddress = ''l:9443''\<rparr>,
                 \<lparr>Suffrage = Nonvoter, ServerID = ''p'', ServerAddress = ''p:9443''\<rparr>,
                 \<lparr>Suffrage = Voter, ServerID = ''v'', ServerAddress = ''v:9443''\<rparr>],
      isLeader = True,
      peerRecords = [''l'', ''p'', ''v''],
      emitted = [],
      refreshes = 0,
      testStore = False,
      removeServerFails = False,
      deleteFails = False\<rparr>"

text \<open>
  A membership server on the leader; the caller is authenticated as \<open>p\<close>, which is in
  the raft configuration and owns a lease, an ASN and an edge.
\<close>

definition membership0 :: membership where
  "membership0 =
     \<lparr>leader = True, insecure = False, proxiedFor = None, authenticatedCaller = Some ''p'',
      configuration = Inr [\<lparr>Suffrage = Voter, ServerID = ''l'', ServerAddress = ''l:9443''\<rparr>,
                           \<lparr>Suffrage = Nonvoter, ServerID = ''p'', ServerAddress = ''p:9443''\<rparr>],
      removeFails = False, peerDeleteFails = False,
      peersDB = \<lparr>nodeIDs = [''l'', ''p''], leaseNodes = [''l'', ''p''], asnNodes = [''p''],
                 edgePairs = [(''l'', ''p'')]\<rparr>,
      effects = []\<rparr>"


text \<open>
  Prefixes kept as the text they were written in: every non-empty string parses, to
  itself.
\<close>

definition textNetIP :: "string NetIP" where
  "textNetIP = \<lparr>ParsePrefix = (\<lambda>s. if s = [] then None else Some s), PrefixString = (\<lambda>p. p)\<rparr>"

definition meshNode :: "string \<Rightarrow> string \<Rightarrow> string \<Rightarrow> string \<Rightarrow> MeshNode" where
  "meshNode nodeID key v4 v6 =
     \<lparr>Id = nodeID, PublicKey = key, HostPublicKey = [], PrimaryEndpoint = [],
      WireguardEndpoints = [], ZoneAwarenessId = [], Multiaddrs = [],
      PrivateIpv4 = v4, PrivateIpv6 = v6, Features = [], JoinedAt = 0\<rparr>"

definition edge :: "string \<Rightarrow> string \<Rightarrow> Edge" where
  "edge a b = \<lparr>Source = a, Target = b, Weight = 1, Attributes = []\<rparr>"

definition mesh :: "MeshNode list \<Rightarrow> Edge list \<Rightarrow> MeshStorage" where
  "mesh vs es =
     \<lparr>Vertices = vs, Edges = es, RoutesByNode = (\<lambda>nodeID. Inr []),
      NetworkACLs = Inr [allowAll], Groups = noGroups\<rparr>"

definition star :: MeshStorage where
  "star = mesh
     [meshNode ''R'' ''key-R'' ''172.16.0.6/32'' ''2001:db8::6/128'',
      meshNode ''P1'' ''key-P1'' ''172.16.0.1/32'' ''2001:db8::1/128'',
      meshNode ''P2'' ''key-P2'' ''172.16.0.2/32'' ''2001:db8::2/128'',
      meshNode ''P3'' ''key-P3'' ''172.16.0.3/32'' ''2001:db8::3/128'',
      meshNode ''P4'' ''key-P4'' ''172.16.0.4/32'' ''2001:db8::4/128'',
      meshNode ''P5'' ''key-P5'' ''172.16.0.5/32'' ''2001:db8::5/128'']
     [edge ''R'' ''P1'', edge ''R'' ''P2'', edge ''R'' ''P3'', edge ''R'' ''P4'', edge ''R'' ''P5'']"

text \<open>
  Three nodes around \<open>P1\<close>, whose edge to \<open>P3\<close> was stored before its edge to \<open>P2\<close>.
\<close>

definition fan :: MeshStorage where
  "fan = mesh
     [meshNode ''P1'' ''key-P1'' ''172.16.0.1/32'' ''2001:db8::1/128'',
      meshNode ''P2'' ''key-P2'' ''172.16.0.2/32'' ''2001:db8::2/128'',
      meshNode ''P3'' ''key-P3'' ''172.16.0.3/32'' ''2001:db8::3/128'']
     [edge ''P1'' ''P3'', edge ''P1'' ''P2'']"

text \<open>
  Its adjacency map in a run in which the \<open>range\<close> over the neighbours of \<open>P1\<close>
  yields \<open>P3\<close> first; no edge is filtered out by the allow-all policy.
\<close>

definition fanAdjacency :: AdjacencyMap where
  "fanAdjacency =
     [(''P1'', [(''P3'', edge ''P1'' ''P3''), (''P2'', edge ''P1'' ''P2'')]),
      (''P2'', [(''P1'', edge ''P1'' ''P2'')]),
      (''P3'', [(''P1'', edge ''P1'' ''P3'')])]"

text \<open>
  A chain \<open>A - B - E - T\<close> in which \<open>E\<close> has no public key, and its adjacency map.
\<close>

definition chain :: MeshStorage where
  "chain = mesh
     [meshNode ''A'' ''key-A'' ''172.16.0.1/32'' ''2001:db8::1/128'',
      meshNode ''B'' ''key-B'' ''172.16.0.2/32'' ''2001:db8::2/128'',
      meshNode ''E'' [] ''172.16.0.3/32'' ''2001:db8::3/128'',
      meshNode ''T'' ''key-T'' ''172.16.0.4/32'' ''2001:db8::4/128'']
     [edge ''A'' ''B'', edge ''B'' ''E'', edge ''E'' ''T'']"

definition chainAdjacency :: AdjacencyMap where
  "chainAdjacency =
     [(''A'', [(''B'', edge ''A'' ''B'')]),
      (''B'', [(''A'', edge ''A'' ''B''), (''E'', edge ''B'' ''E'')]),
      (''E'', [(''B'', edge ''B'' ''E''), (''T'', edge ''E'' ''T'')]),
      (''T'', [(''E'', edge ''E'' ''T'')])]"

text \<open>The descriptors of a result, and the three fields read off each of them.\<close>

definition peersOf :: "(error + WireGuardPeer list) option \<Rightarrow> WireGuardPeer list" where
  "peersOf r = (case r of Some (Inr out) \<Rightarrow> out | _ \<Rightarrow> [])"

definition prefixCounts :: "WireGuardPeer list \<Rightarrow> nat list" where
  "prefixCounts out = map (\<lambda>peer. length (AllowedIps peer)) out"

definition summary :: "WireGuardPeer list \<Rightarrow> (string \<times> string list \<times> string list) list" where
  "summary out = map (\<lambda>peer. (Id (Node peer), AllowedIps peer, AllowedRoutes peer)) out"

text \<open>
  Sorted by peer node id: Go's \<open><\<close> on strings (bytewise, a proper prefix first),
  the comparison of two descriptors by the id of their node, and a list in which no
  descriptor stands before one of a smaller id.
\<close>

fun stringLess :: "string \<Rightarrow> string \<Rightarrow> bool" where
  "stringLess [] [] = False"
| "stringLess [] (y # ys) = True"
| "stringLess (x # xs) [] = False"
| "stringLess (x # xs) (y # ys) =
     ((of_char x :: nat) < of_char y \<or> (x = y \<and> stringLess xs ys))"

definition peerLess :: "WireGuardPeer \<Rightarrow> WireGuardPeer \<Rightarrow> bool" where
  "peerLess a b = stringLess (Id (Node a)) (Id (Node b))"

definition sortedByID :: "WireGuardPeer list \<Rightarrow> bool" where
  "sortedByID out = sorted_wrt (\<lambda>a b. \<not> peerLess b a) out"

text \<open>
  The adjacency map of the star with the neighbours of \<open>R\<close> iterated in the order
  \<open>ps\<close>. The outer map is only ever looked up by key, never ranged over, so its
  order is fixed here. \<open>starNode\<close> is the vertex of the peer \<open>Pi\<close> and
  \<open>starAddrs\<close> the text of its two addresses.
\<close>

definition starAdjacency :: "string list \<Rightarrow> AdjacencyMap" where
  "starAdjacency ps =
     (''R'', map (\<lambda>p. (p, edge ''R'' p)) ps) #
     map (\<lambda>p. (p, [(''R'', edge ''R'' p)])) [''P1'', ''P2'', ''P3'', ''P4'', ''P5'']"

definition starNode :: "string \<Rightarrow> MeshNode" where
  "starNode p =
     meshNode p (''key-'' @ p) (''172.16.0.'' @ tl p @ ''/32'') (''2001:db8::'' @ tl p @ ''/128'')"

definition starAddrs :: "string \<Rightarrow> string list" where
  "starAddrs p = [''172.16.0.'' @ tl p @ ''/32'', ''2001:db8::'' @ tl p @ ''/128'']"

definition starPeers :: "string set" where
  "starPeers = {''P1'', ''P2'', ''P3'', ''P4'', ''P5''}"

section \<open>Properties of the network ACLs\<close>

lemma matchSourceNodes_frame:
  "snd (matchSourceNodes gg acl action) = acl\<lparr>SourceNodes := SourceNodes (snd (matchSourceNodes gg acl action))\<rparr>"
  by (cases "resolveNodes gg (SourceNodes acl) (SrcNode action)") (simp add: matchSourceNodes_def)

lemma matchDestinationNodes_frame:
  "snd (matchDestinationNodes gg acl action) = acl\<lparr>DestinationNodes := DestinationNodes (snd (matchDestinationNodes gg acl action))\<rparr>"
  by (cases "resolveNodes gg (DestinationNodes acl) (DstNode action)") (simp add: matchDestinationNodes_def)

lemma Matches_snd:
  "snd (Matches gg acl action) = snd (matchSourceNodes gg acl action) \<or>
   snd (Matches gg acl action) = snd (matchDestinationNodes gg (snd (matchSourceNodes gg acl action)) action)"
proof -
  obtain ok1 acl1 where a: "matchSourceNodes gg acl action = (ok1, acl1)"
    by (cases "matchSourceNodes gg acl action")
  obtain ok2 acl2 where b: "matchDestinationNodes gg acl1 action = (ok2, acl2)"
    by (cases "matchDestinationNodes gg acl1 action")
  show ?thesis using a b by (cases ok1; cases ok2) (simp_all add: Matches_def)
qed

lemma matchSourceNodes_Action: "Action (snd (matchSourceNodes gg acl action)) = Action acl"
  by (subst matchSourceNodes_frame) simp

lemma matchDestinationNodes_Action: "Action (snd (matchDestinationNodes gg acl action)) = Action acl"
  by (subst matchDestinationNodes_frame) simp

lemma Matches_Action: "Action (snd (Matches gg acl action)) = Action acl"
  using Matches_snd[of gg acl action]
  by (auto simp add: matchSourceNodes_Action matchDestinationNodes_Action)

lemma Accept_find:
  "fst (Accept gg acls action) =
     (case find (\<lambda>acl. fst (Matches gg acl action)) acls of
        None \<Rightarrow> False
      | Some acl \<Rightarrow> Action acl = ACTION_ACCEPT)"
proof (induction acls)
  case Nil
  show ?case by simp
next
  case (Cons acl rest)
  obtain ok acl' where m: "Matches gg acl action = (ok, acl')" by (cases "Matches gg acl action")
  have a: "Action acl' = Action acl" using Matches_Action[of gg acl action] m by simp
  obtain r rest' where r: "Accept gg rest action = (r, rest')" by (cases "Accept gg rest action")
  show ?case using Cons.IH m a r by (cases ok) simp_all
qed

lemma set_insertBy: "set (insertBy lt x ys) = insert x (set ys)"
  by (induction ys) auto

lemma insertBy_sorted:
  "sorted_wrt (\<lambda>x y. \<not> Less x y) ys \<Longrightarrow>
   sorted_wrt (\<lambda>x y. \<not> Less x y) (insertBy (\<lambda>x y. Less y x) x ys)"
proof (induction ys)
  case Nil
  show ?case by simp
next
  case (Cons y ys)
  have asym: "Less x y \<Longrightarrow> \<not> Less y x" by (simp add: Less_def)
  have trans: "\<not> Less x y \<Longrightarrow> \<not> Less y z \<Longrightarrow> \<not> Less x z" for z
    by (simp add: Less_def)
  show ?case using Cons asym trans by (auto simp add: set_insertBy)
qed

lemma Sort_descending: "sortedDescending (Sort SortDescending acls)"
  unfolding sortedDescending_def Sort.simps sortBy_def
  by (induction acls) (simp_all add: insertBy_sorted)

text \<open>
  Claim C2. For ACLs sorted in descending priority and the action of an edge \<open>(a, b)\<close>
  (source node \<open>a\<close>, destination node \<open>b\<close>, port 0, whatever stands for the CIDRs and
  the protocol), \<open>Accept\<close> returns true iff the first ACL of the list that matches the
  action has the action accept. When no ACL matches, and so for the empty list, the
  answer is false: default deny. \<open>FilterGraph_edge_kept\<close> above ties the verdict to
  the edge staying in the filtered graph.
\<close>

theorem Accept_first_match_wins:
  assumes "sortedDescending acls"
  shows "fst (Accept getGroup acls
            \<lparr>SrcNode = a, SrcCidr = srcCidr, DstNode = b, DstCidr = dstCidr,
             Protocol = proto, Port = 0\<rparr>)
       = (case find (\<lambda>acl. fst (Matches getGroup acl
                \<lparr>SrcNode = a, SrcCidr = srcCidr, DstNode = b, DstCidr = dstCidr,
                 Protocol = proto, Port = 0\<rparr>)) acls of
            None \<Rightarrow> False
          | Some acl \<Rightarrow> Action acl = ACTION_ACCEPT)"
  by (rule Accept_find)

lemma resolveNodes_literal:
  "\<not> HasPrefix n ''group:'' \<Longrightarrow> resolveNodes gg [n] s = (containsOrWildcardMatch [n] s, [n])"
  by (simp add: resolveNodes_def)

lemma Matches_denyP1P2_P1_P2: "fst (Matches noGroups denyP1P2 (edgeAction ''P1'' ''P2''))"
  by (simp add: Matches_def matchSourceNodes_def matchDestinationNodes_def matchRest_def
        edgeAction_def denyP1P2_def resolveNodes_literal HasPrefix_def)

lemma Matches_denyP1P2_P3_P2: "\<not> fst (Matches noGroups denyP1P2 (edgeAction ''P3'' ''P2''))"
  by (simp add: Matches_def matchSourceNodes_def matchDestinationNodes_def matchRest_def
        edgeAction_def denyP1P2_def resolveNodes_literal HasPrefix_def)

lemma Matches_allowAll_edge: "fst (Matches noGroups allowAll (edgeAction a b))"
  by (simp add: Matches_def matchSourceNodes_def matchDestinationNodes_def matchRest_def
        edgeAction_def allowAll_def resolveNodes_literal HasPrefix_def)

lemma Sort_allow_deny: "Sort SortDescending [allowAll, denyP1P2] = [denyP1P2, allowAll]"
  by (simp add: sortBy_def Less_def denyP1P2_def allowAll_def)

lemma sorted_deny_allow: "sortedDescending [denyP1P2, allowAll]"
  using Sort_descending[of "[allowAll, denyP1P2]"] by (simp only: Sort_allow_deny)

text \<open>
  The theorem at the deny rule of scenario 5 sorted before the allow-all rule: the
  edge from \<open>P1\<close> to \<open>P2\<close> is refused, the edge from \<open>P3\<close> to \<open>P2\<close> is accepted.
\<close>

theorem Accept_first_match_wins_witness:
  "sortedDescending [denyP1P2, allowAll]
   \<and> \<not> fst (Accept noGroups [denyP1P2, allowAll] (edgeAction ''P1'' ''P2''))
   \<and> fst (Accept noGroups [denyP1P2, allowAll] (edgeAction ''P3'' ''P2''))"
proof -
  have 1: "\<not> fst (Accept noGroups [denyP1P2, allowAll] (edgeAction ''P1'' ''P2''))"
    using Accept_first_match_wins[OF sorted_deny_allow, of noGroups "''P1''" "[]" "''P2''" "[]" "[]"]
          Matches_denyP1P2_P1_P2
    by (simp add: edgeAction_def) (simp add: denyP1P2_def)
  have 2: "fst (Accept noGroups [denyP1P2, allowAll] (edgeAction ''P3'' ''P2''))"
    using Accept_first_match_wins[OF sorted_deny_allow, of noGroups "''P3''" "[]" "''P2''" "[]" "[]"]
          Matches_denyP1P2_P3_P2 Matches_allowAll_edge[of "''P3''" "''P2''"]
    by (simp add: edgeAction_def) (simp add: allowAll_def)
  show ?thesis using 1 2 sorted_deny_allow by simp
qed

lemma resolveNodes_Nil: "resolveNodes gg [] s = (False, [])"
  by (simp add: resolveNodes_def)

lemma Matches_fst:
  "fst (Matches gg acl action) =
     (fst (matchSourceNodes gg acl action) \<and>
      fst (matchDestinationNodes gg (snd (matchSourceNodes gg acl action)) action) \<and>
      matchRest (snd (matchDestinationNodes gg (snd (matchSourceNodes gg acl action)) action)) action)"
proof -
  obtain ok1 acl1 where a: "matchSourceNodes gg acl action = (ok1, acl1)"
    by (cases "matchSourceNodes gg acl action")
  obtain ok2 acl2 where b: "matchDestinationNodes gg acl1 action = (ok2, acl2)"
    by (cases "matchDestinationNodes gg acl1 action")
  show ?thesis using a b by (cases ok1; cases ok2) (simp_all add: Matches_def)
qed

lemma matchSourceNodes_empty:
  "SourceNodes acl = [] \<Longrightarrow> SrcNode action \<noteq> [] \<Longrightarrow> \<not> fst (matchSourceNodes gg acl action)"
  by (simp add: matchSourceNodes_def resolveNodes_Nil)

lemma matchDestinationNodes_empty:
  "DestinationNodes acl = [] \<Longrightarrow> DstNode action \<noteq> [] \<Longrightarrow> \<not> fst (matchDestinationNodes gg acl action)"
  by (simp add: matchDestinationNodes_def resolveNodes_Nil)

lemma matchSourceNodes_keeps:
  "DestinationNodes (snd (matchSourceNodes gg acl action)) = DestinationNodes acl"
  "SourceCidrs (snd (matchSourceNodes gg acl action)) = SourceCidrs acl"
  "DestinationCidrs (snd (matchSourceNodes gg acl action)) = DestinationCidrs acl"
  "Protocols (snd (matchSourceNodes gg acl action)) = Protocols acl"
  "Ports (snd (matchSourceNodes gg acl action)) = Ports acl"
  by (subst matchSourceNodes_frame, simp)+

lemma matchDestinationNodes_keeps:
  "SourceNodes (snd (matchDestinationNodes gg acl action)) = SourceNodes acl"
  "SourceCidrs (snd (matchDestinationNodes gg acl action)) = SourceCidrs acl"
  "DestinationCidrs (snd (matchDestinationNodes gg acl action)) = DestinationCidrs acl"
  "Protocols (snd (matchDestinationNodes gg acl action)) = Protocols acl"
  "Ports (snd (matchDestinationNodes gg acl action)) = Ports acl"
  by (subst matchDestinationNodes_frame, simp)+

lemma matchRest_empty:
  "(SourceCidrs acl = [] \<and> SrcCidr action \<noteq> [])
     \<or> (DestinationCidrs acl = [] \<and> DstCidr action \<noteq> [])
     \<or> (Protocols acl = [] \<and> Protocol action \<noteq> [])
     \<or> (Ports acl = [] \<and> Port action \<noteq> 0) \<Longrightarrow> \<not> matchRest acl action"
  by (auto simp add: matchRest_def)

text \<open>
  Claim C7. An ACL with an empty list of source nodes (destination nodes, source
  CIDRs, destination CIDRs, protocols, ports) does not match an action whose
  corresponding field is set (non-zero for the port): the guard \<open>len(list) >= 0\<close>
  always holds, so the membership test runs on the empty list and fails. An empty
  node list names no group, so no map of groups is ranged over.
\<close>

theorem Matches_empty_list_fails_closed:
  assumes "(SourceNodes acl = [] \<and> SrcNode action \<noteq> [])
         \<or> (DestinationNodes acl = [] \<and> DstNode action \<noteq> [])
         \<or> (SourceCidrs acl = [] \<and> SrcCidr action \<noteq> [])
         \<or> (DestinationCidrs acl = [] \<and> DstCidr action \<noteq> [])
         \<or> (Protocols acl = [] \<and> Protocol action \<noteq> [])
         \<or> (Ports acl = [] \<and> Port action \<noteq> 0)"
  shows "\<not> fst (Matches getGroup acl action)"
proof -
  let ?a1 = "snd (matchSourceNodes getGroup acl action)"
  let ?a2 = "snd (matchDestinationNodes getGroup ?a1 action)"
  consider (src) "SourceNodes acl = []" "SrcNode action \<noteq> []"
    | (dst) "DestinationNodes acl = []" "DstNode action \<noteq> []"
    | (rest) "(SourceCidrs acl = [] \<and> SrcCidr action \<noteq> [])
         \<or> (DestinationCidrs acl = [] \<and> DstCidr action \<noteq> [])
         \<or> (Protocols acl = [] \<and> Protocol action \<noteq> [])
         \<or> (Ports acl = [] \<and> Port action \<noteq> 0)"
    using assms by blast
  then show ?thesis
  proof cases
    case src
    then show ?thesis by (simp add: Matches_fst matchSourceNodes_empty)
  next
    case dst
    then have "\<not> fst (matchDestinationNodes getGroup ?a1 action)"
      by (simp add: matchDestinationNodes_empty matchSourceNodes_keeps)
    then show ?thesis by (simp add: Matches_fst)
  next
    case rest
    then have "\<not> matchRest ?a2 action"
      by (intro matchRest_empty) (simp add: matchSourceNodes_keeps matchDestinationNodes_keeps)
    then show ?thesis by (simp add: Matches_fst)
  qed
qed

text \<open>
  The theorem at the allow-all rule, which lists no protocol: an action that names the
  protocol tcp is not matched, the same action without a protocol is.
\<close>

theorem Matches_empty_list_fails_closed_witness:
  "Protocols allowAll = [] \<and> Protocol ((edgeAction ''P1'' ''P2'')\<lparr>Protocol := ''tcp''\<rparr>) \<noteq> []
   \<and> \<not> fst (Matches noGroups allowAll ((edgeAction ''P1'' ''P2'')\<lparr>Protocol := ''tcp''\<rparr>))
   \<and> fst (Matches noGroups allowAll (edgeAction ''P1'' ''P2''))"
proof -
  have h: "Protocols allowAll = [] \<and> Protocol ((edgeAction ''P1'' ''P2'')\<lparr>Protocol := ''tcp''\<rparr>) \<noteq> []"
    by (simp add: allowAll_def)
  show ?thesis
    using h Matches_allowAll_edge[of "''P1''" "''P2''"]
      Matches_empty_list_fails_closed[of allowAll "(edgeAction ''P1'' ''P2'')\<lparr>Protocol := ''tcp''\<rparr>" noGroups]
    by blast
qed

lemma map_of_map_values:
  "map_of (map (\<lambda>(a, targets). (a, f a targets)) xs) k = map_option (f k) (map_of xs k)"
  by (induction xs) auto

lemma FilterGraph_edge_kept:
  assumes "FilterGraph st self = Inr adjacencyMap"
  shows "\<exists>acls. NetworkACLs st = Inr acls \<and>
     set (adjacent adjacencyMap a) =
       {(b, e). (b, e) \<in> set (adjacent (GraphAdjacencyMap st) a)
          \<and> fst (Accept (Groups st) (Sort SortDescending acls) (edgeAction a b))}"
proof -
  obtain acls where acls: "NetworkACLs st = Inr acls"
    using assms by (cases "NetworkACLs st") (auto simp add: FilterGraph_def)
  have adj: "adjacencyMap = map (\<lambda>(a, targets).
                      (a, filter (\<lambda>(b, e). fst (Accept (Groups st) (Sort SortDescending acls) (edgeAction a b)))
                            targets))
                 (GraphAdjacencyMap st)"
    using assms acls by (simp add: FilterGraph_def)
  show ?thesis
    using acls
    by (auto simp add: adj adjacent_def map_of_map_values split: option.splits)
qed

lemma mapIndex_mapAppend:
  "mapIndex (mapAppend m k v) k' = (if k' = k then mapIndex m k @ [v] else mapIndex m k')"
  by (induction m) (auto simp add: mapIndex_def)

lemma keys_mapAppend: "fst ` set (mapAppend m k v) = insert k (fst ` set m)"
  by (induction m) (auto split: if_splits simp add: rev_image_eqI)

lemma values_mapAppend:
  "list_all (\<lambda>kv. snd kv \<noteq> [] \<and> list_all P (snd kv)) m \<Longrightarrow> P v \<Longrightarrow>
   list_all (\<lambda>kv. snd kv \<noteq> [] \<and> list_all P (snd kv)) (mapAppend m k v)"
  by (induction m) auto

lemma mapIndex_addSubjects:
  "mapIndex (addSubjects m k subs) k' =
     (if k' = k then mapIndex m k @ nodeSubjects \<lparr>GroupName = g, Subjects = subs\<rparr>
      else mapIndex m k')"
  by (induction subs arbitrary: m) (auto simp add: mapIndex_mapAppend nodeSubjects_def)

lemma keys_addSubjects: "fst ` set (addSubjects m k subs) \<subseteq> insert k (fst ` set m)"
proof (induction subs arbitrary: m)
  case Nil
  show ?case by auto
next
  case (Cons s subs)
  have "fst ` set (addSubjects (mapAppend m k (SubjectName s)) k subs) \<subseteq> insert k (fst ` set m)"
    using Cons[of "mapAppend m k (SubjectName s)"] by (simp only: keys_mapAppend) simp
  then show ?case using Cons[of m] by simp
qed

lemma values_addSubjects:
  "list_all (\<lambda>kv. snd kv \<noteq> [] \<and> list_all P (snd kv)) m \<Longrightarrow>
   list_all P (nodeSubjects \<lparr>GroupName = g, Subjects = subs\<rparr>) \<Longrightarrow>
   list_all (\<lambda>kv. snd kv \<noteq> [] \<and> list_all P (snd kv)) (addSubjects m k subs)"
  by (induction subs arbitrary: m) (auto simp add: nodeSubjects_def values_mapAppend)

lemma prefix_parts: "HasPrefix s p \<Longrightarrow> p @ TrimPrefix s p = s"
  unfolding TrimPrefix_def HasPrefix_def by (metis append_take_drop_id)

lemma reference_parts:
  "HasPrefix n ''group:'' \<Longrightarrow> groupRef (TrimPrefix n ''group:'') = n"
  unfolding groupRef_def by (rule prefix_parts)

lemma TrimPrefix_reference: "TrimPrefix (groupRef X) ''group:'' = X"
  by (simp add: TrimPrefix_def HasPrefix_def groupRef_def)

lemma HasPrefix_reference: "HasPrefix (groupRef X) ''group:''"
  by (simp add: HasPrefix_def groupRef_def)

lemma nested_reference:
  "HasPrefix (groupRef X) ''group:group:'' = HasPrefix X ''group:''"
  by (simp add: HasPrefix_def groupRef_def)

lemma groupRef_eq: "(groupRef X = groupRef Y) = (X = Y)"
  by (simp add: groupRef_def)

lemma concat_replicate_Nil: "concat (replicate n []) = []"
  by (induction n) simp_all

lemma groupMembers_reference:
  "groupMembers gg (groupRef X) = (case gg X of Inl err \<Rightarrow> [] | Inr grp \<Rightarrow> nodeSubjects grp)"
  by (simp add: groupMembers_def HasPrefix_reference TrimPrefix_reference)

lemma mapIndex_addSubjects_group:
  "mapIndex (addSubjects m k (Subjects grp)) k' =
     (if k' = k then mapIndex m k @ nodeSubjects grp else mapIndex m k')"
  using mapIndex_addSubjects[of m k "Subjects grp" k' "GroupName grp"]
  by (simp add: nodeSubjects_def)

lemma values_addSubjects_group:
  "list_all (\<lambda>kv. snd kv \<noteq> [] \<and> list_all P (snd kv)) m \<Longrightarrow>
   list_all P (nodeSubjects grp) \<Longrightarrow>
   list_all (\<lambda>kv. snd kv \<noteq> [] \<and> list_all P (snd kv)) (addSubjects m k (Subjects grp))"
  using values_addSubjects[of P m "GroupName grp" "Subjects grp" k]
  by (simp add: nodeSubjects_def)

lemma collectGroups_plain:
  assumes "list_all (\<lambda>n. \<not> HasPrefix n ''group:group:'') rest"
    and "\<forall>k\<in>fst ` set groups. \<not> HasPrefix k ''group:''"
    and "\<not> lookupFails gg rest"
  shows "\<exists>groups'. collectGroups gg rest groups = Some groups'
           \<and> (\<forall>X. mapIndex groups' X =
                  mapIndex groups X @
                  concat (replicate (count_list rest (groupRef X)) (groupMembers gg (groupRef X))))"
  using assms
proof (induction rest arbitrary: groups)
  case Nil
  show ?case by simp
next
  case (Cons node rest)
  have plain: "list_all (\<lambda>n. \<not> HasPrefix n ''group:group:'') rest"
    and nofail: "\<not> lookupFails gg rest"
    using Cons.prems by (simp_all add: lookupFails_def)
  show ?case
  proof (cases "HasPrefix node ''group:''")
    case False
    then have ne: "node \<noteq> groupRef X" for X
      using HasPrefix_reference by auto
    obtain groups' where g: "collectGroups gg rest groups = Some groups'"
      and m: "\<And>X. mapIndex groups' X =
                  mapIndex groups X @
                  concat (replicate (count_list rest (groupRef X)) (groupMembers gg (groupRef X)))"
      using Cons.IH[OF plain Cons.prems(2) nofail] by blast
    show ?thesis using False g m ne by simp
  next
    case True
    define X0 where "X0 = TrimPrefix node ''group:''"
    have node: "node = groupRef X0"
      using reference_parts[OF True] by (simp add: X0_def)
    have X0: "\<not> HasPrefix X0 ''group:''"
      using Cons.prems(1) by (simp add: node nested_reference)
    have fresh: "node \<notin> fst ` set groups"
      using Cons.prems(2) True by blast
    have cnt: "count_list (node # rest) (groupRef X) =
                 (if X = X0 then Suc (count_list rest (groupRef X)) else count_list rest (groupRef X))" for X
      by (simp add: node groupRef_eq)
    show ?thesis
    proof (cases "gg X0")
      case (Inl err)
      have err: "err = ErrGroupNotFound"
        using Cons.prems(3) True Inl by (simp add: lookupFails_def X0_def)
      obtain groups' where g: "collectGroups gg rest groups = Some groups'"
        and m: "\<And>X. mapIndex groups' X =
                  mapIndex groups X @
                  concat (replicate (count_list rest (groupRef X)) (groupMembers gg (groupRef X)))"
        using Cons.IH[OF plain Cons.prems(2) nofail] by blast
      have c: "collectGroups gg (node # rest) groups = Some groups'"
        using True fresh Inl err g by (simp add: X0_def)
      have e: "groupMembers gg (groupRef X0) = []"
        by (simp add: groupMembers_reference Inl)
      have "mapIndex groups' X =
                  mapIndex groups X @
                  concat (replicate (count_list (node # rest) (groupRef X)) (groupMembers gg (groupRef X)))" for X
      proof -
        have "mapIndex groups' X = mapIndex groups X @
                  concat (replicate (count_list rest (groupRef X)) (groupMembers gg (groupRef X)))"
          by (rule m)
        moreover have "concat (replicate (count_list rest (groupRef X)) (groupMembers gg (groupRef X)))
            = concat (replicate (count_list (node # rest) (groupRef X)) (groupMembers gg (groupRef X)))"
        proof (cases "X = X0")
          case True
          show ?thesis unfolding True e concat_replicate_Nil ..
        next
          case False
          then show ?thesis by (simp only: cnt if_False)
        qed
        ultimately show ?thesis by simp
      qed
      then show ?thesis using c by blast
    next
      case (Inr grp)
      let ?g1 = "addSubjects groups X0 (Subjects grp)"
      have k1: "\<forall>k\<in>fst ` set ?g1. \<not> HasPrefix k ''group:''"
      proof
        fix k assume "k \<in> fst ` set ?g1"
        then have "k = X0 \<or> k \<in> fst ` set groups"
          using keys_addSubjects[of groups X0 "Subjects grp"] by (auto simp only: subset_iff insert_iff)
        then show "\<not> HasPrefix k ''group:''" using Cons.prems(2) X0 by (auto simp only:)
      qed
      obtain groups' where g: "collectGroups gg rest ?g1 = Some groups'"
        and m: "\<And>X. mapIndex groups' X =
                  mapIndex ?g1 X @
                  concat (replicate (count_list rest (groupRef X)) (groupMembers gg (groupRef X)))"
        using Cons.IH[OF plain k1 nofail] by blast
      have c: "collectGroups gg (node # rest) groups = Some groups'"
        using True fresh Inr g by (simp add: X0_def)
      have e: "groupMembers gg (groupRef X0) = nodeSubjects grp"
        by (simp add: groupMembers_reference Inr)
      have "mapIndex groups' X =
                  mapIndex groups X @
                  concat (replicate (count_list (node # rest) (groupRef X)) (groupMembers gg (groupRef X)))" for X
      proof (cases "X = X0")
        case True
        have 1: "mapIndex groups' X0 = (mapIndex groups X0 @ nodeSubjects grp) @
                  concat (replicate (count_list rest (groupRef X0)) (nodeSubjects grp))"
          using m[of X0] by (simp add: e mapIndex_addSubjects_group)
        have 2: "count_list (node # rest) (groupRef X0) = Suc (count_list rest (groupRef X0))"
          by (simp only: cnt) simp
        show ?thesis
          unfolding True 1 2 e by simp
      next
        case False
        have 1: "mapIndex groups' X = mapIndex groups X @
                  concat (replicate (count_list rest (groupRef X)) (groupMembers gg (groupRef X)))"
          using m[of X] False by (simp add: mapIndex_addSubjects_group)
        have 2: "count_list (node # rest) (groupRef X) = count_list rest (groupRef X)"
          using False by (simp only: cnt if_False)
        show ?thesis unfolding 1 2 ..
      qed
      then show ?thesis using c by blast
    qed
  qed
qed

lemma collectGroups_fails:
  assumes "list_all (\<lambda>n. \<not> HasPrefix n ''group:group:'') rest"
    and "\<forall>k\<in>fst ` set groups. \<not> HasPrefix k ''group:''"
    and "lookupFails gg rest"
  shows "collectGroups gg rest groups = None"
  using assms
proof (induction rest arbitrary: groups)
  case Nil
  then show ?case by (simp add: lookupFails_def)
next
  case (Cons node rest)
  have plain: "list_all (\<lambda>n. \<not> HasPrefix n ''group:group:'') rest"
    using Cons.prems by simp
  show ?case
  proof (cases "HasPrefix node ''group:''")
    case False
    then have "lookupFails gg rest" using Cons.prems(3) by (simp add: lookupFails_def)
    then show ?thesis using False Cons.IH[OF plain Cons.prems(2)] by simp
  next
    case True
    define X0 where "X0 = TrimPrefix node ''group:''"
    have node: "node = groupRef X0"
      using reference_parts[OF True] by (simp add: X0_def)
    have X0: "\<not> HasPrefix X0 ''group:''"
      using Cons.prems(1) by (simp add: node nested_reference)
    have fresh: "node \<notin> fst ` set groups"
      using Cons.prems(2) True by blast
    show ?thesis
    proof (cases "gg X0")
      case (Inl err)
      show ?thesis
      proof (cases "err = ErrGroupNotFound")
        case True
        then have "lookupFails gg rest"
          using Cons.prems(3) Inl by (simp add: lookupFails_def X0_def)
        then show ?thesis
          using \<open>HasPrefix node ''group:''\<close> fresh Inl True Cons.IH[OF plain Cons.prems(2)]
          by (simp add: X0_def)
      next
        case False
        then show ?thesis using \<open>HasPrefix node ''group:''\<close> fresh Inl by (simp add: X0_def)
      qed
    next
      case (Inr grp)
      let ?g1 = "addSubjects groups X0 (Subjects grp)"
      have k1: "\<forall>k\<in>fst ` set ?g1. \<not> HasPrefix k ''group:''"
      proof
        fix k assume "k \<in> fst ` set ?g1"
        then have "k = X0 \<or> k \<in> fst ` set groups"
          using keys_addSubjects[of groups X0 "Subjects grp"] by (auto simp only: subset_iff insert_iff)
        then show "\<not> HasPrefix k ''group:''" using Cons.prems(2) X0 by (auto simp only:)
      qed
      have "lookupFails gg rest"
        using Cons.prems(3) Inr by (simp add: lookupFails_def X0_def)
      then show ?thesis
        using True fresh Inr Cons.IH[OF plain k1] by (simp add: X0_def)
    qed
  qed
qed

lemma collectGroups_values:
  assumes "collectGroups gg rest groups = Some groups'"
    and "list_all (\<lambda>kv. snd kv \<noteq> [] \<and> list_all P (snd kv)) groups"
    and "list_all (\<lambda>n. list_all P (groupMembers gg n)) rest"
  shows "list_all (\<lambda>kv. snd kv \<noteq> [] \<and> list_all P (snd kv)) groups'"
  using assms
proof (induction rest arbitrary: groups)
  case Nil
  then show ?case by simp
next
  case (Cons node rest)
  have r: "list_all (\<lambda>n. list_all P (groupMembers gg n)) rest"
    using Cons.prems(3) by simp
  show ?case
  proof (cases "HasPrefix node ''group:'' \<and> node \<notin> fst ` set groups")
    case False
    then have "collectGroups gg rest groups = Some groups'"
      using Cons.prems(1) by (auto split: if_splits)
    then show ?thesis using Cons.IH Cons.prems(2) r by blast
  next
    case True
    show ?thesis
    proof (cases "gg (TrimPrefix node ''group:'')")
      case (Inl err)
      then have "collectGroups gg rest groups = Some groups'"
        using Cons.prems(1) True by (auto split: if_splits)
      then show ?thesis using Cons.IH Cons.prems(2) r by blast
    next
      case (Inr grp)
      let ?g1 = "addSubjects groups (TrimPrefix node ''group:'') (Subjects grp)"
      have c: "collectGroups gg rest ?g1 = Some groups'"
        using Cons.prems(1) True Inr by simp
      have "list_all P (nodeSubjects grp)"
        using Cons.prems(3) True Inr by (simp add: groupMembers_def)
      then have "list_all (\<lambda>kv. snd kv \<noteq> [] \<and> list_all P (snd kv)) ?g1"
        using Cons.prems(2) by (rule values_addSubjects_group[rotated])
      then show ?thesis using Cons.IH[OF c _ r] by blast
    qed
  qed
qed

lemma replace_concat:
  "replace ns obj ms = concat (map (\<lambda>n. if n = obj then ms else [n]) ns)"
  by (induction ns) simp_all

lemma replace_absent: "obj \<notin> set ns \<Longrightarrow> replace ns obj ms = ns"
  by (induction ns) auto

lemma replaceGroups_step:
  "replaceGroups ((k, ms) # rest) ns = replaceGroups rest (replace ns (groupRef k) ms)"
  by (simp add: groupRef_def replace_absent)

lemma concat_map_concat:
  "concat (map f (concat (map g xs))) = concat (map (\<lambda>x. concat (map f (g x))) xs)"
  by (induction xs) simp_all

lemma concat_map_single: "concat (map (\<lambda>n. [n]) ns) = ns"
  by (induction ns) simp_all

lemma mapIndex_Cons:
  "mapIndex ((k, ms) # rest) k' = (if k' = k then ms else mapIndex rest k')"
  by (simp add: mapIndex_def)

lemma replaceGroups_plain:
  assumes "list_all (\<lambda>kv. snd kv \<noteq> [] \<and> list_all (\<lambda>m. \<not> HasPrefix m ''group:'') (snd kv)) groups"
  shows "replaceGroups groups ns =
           concat (map (\<lambda>n. if HasPrefix n ''group:'' \<and> mapIndex groups (TrimPrefix n ''group:'') \<noteq> []
                            then mapIndex groups (TrimPrefix n ''group:'') else [n]) ns)"
  using assms
proof (induction groups arbitrary: ns)
  case Nil
  show ?case by (simp add: mapIndex_def concat_map_single)
next
  case (Cons kv rest)
  obtain k ms where kv: "kv = (k, ms)" by (cases kv)
  let ?F = "\<lambda>groups n. if HasPrefix n ''group:'' \<and> mapIndex groups (TrimPrefix n ''group:'') \<noteq> []
                            then mapIndex groups (TrimPrefix n ''group:'') else [n]"
  have ms: "ms \<noteq> []" "list_all (\<lambda>m. \<not> HasPrefix m ''group:'') ms"
    and rest: "list_all (\<lambda>kv. snd kv \<noteq> [] \<and> list_all (\<lambda>m. \<not> HasPrefix m ''group:'') (snd kv)) rest"
    using Cons.prems by (simp_all add: kv)
  have members: "concat (map (?F rest) ms) = ms"
    using ms(2) by (induction ms) simp_all
  have point: "concat (map (?F rest) (if n = groupRef k then ms else [n])) = ?F (kv # rest) n" for n
  proof (cases "n = groupRef k")
    case True
    have a: "?F (kv # rest) n = ms"
      using ms(1) by (simp add: True kv HasPrefix_reference TrimPrefix_reference mapIndex_Cons)
    have b: "concat (map (?F rest) (if n = groupRef k then ms else [n])) = ms"
      by (simp add: True members)
    show ?thesis unfolding a b ..
  next
    case False
    have "HasPrefix n ''group:'' \<Longrightarrow> TrimPrefix n ''group:'' \<noteq> k"
      using False reference_parts[of n] by auto
    then show ?thesis using False by (simp add: kv mapIndex_Cons)
  qed
  have "replaceGroups (kv # rest) ns = replaceGroups rest (replace ns (groupRef k) ms)"
    unfolding kv by (rule replaceGroups_step)
  also have "\<dots> = concat (map (?F rest) (replace ns (groupRef k) ms))"
    by (rule Cons.IH[OF rest])
  also have "\<dots> = concat (map (\<lambda>n. concat (map (?F rest) (if n = groupRef k then ms else [n]))) ns)"
    unfolding replace_concat concat_map_concat ..
  also have "\<dots> = concat (map (?F (kv # rest)) ns)"
    by (simp only: point)
  finally show ?case .
qed

lemma concat_replicate_empty:
  "(concat (replicate c xs) = []) = (c = 0 \<or> xs = [])"
  by (induction c) auto

lemma resolveNodes_plain:
  assumes "plainGroups gg ns"
  shows "resolveNodes gg ns s =
           (\<not> lookupFails gg ns \<and> containsOrWildcardMatch (expandNodes gg ns) s, expandNodes gg ns)"
proof (cases "lookupFails gg ns")
  case True
  have "list_all (\<lambda>n. \<not> HasPrefix n ''group:group:'') ns"
    using assms by (simp add: plainGroups_def list_all_iff)
  then have "collectGroups gg ns [] = None"
    using True by (intro collectGroups_fails) simp_all
  then show ?thesis using True by (simp add: resolveNodes_def expandNodes_def)
next
  case False
  have plain: "list_all (\<lambda>n. \<not> HasPrefix n ''group:group:'') ns"
    and mem: "list_all (\<lambda>n. list_all (\<lambda>m. \<not> HasPrefix m ''group:'') (groupMembers gg n)) ns"
    using assms by (simp_all add: plainGroups_def list_all_iff)
  obtain groups where g: "collectGroups gg ns [] = Some groups"
    and m: "\<And>X. mapIndex groups X =
              mapIndex [] X @ concat (replicate (count_list ns (groupRef X)) (groupMembers gg (groupRef X)))"
    using collectGroups_plain[OF plain _ False, of "[]"] by auto
  have v: "list_all (\<lambda>kv. snd kv \<noteq> [] \<and> list_all (\<lambda>m. \<not> HasPrefix m ''group:'') (snd kv)) groups"
    using collectGroups_values[OF g _ mem] by simp
  have point: "(if HasPrefix n ''group:'' \<and> mapIndex groups (TrimPrefix n ''group:'') \<noteq> []
                then mapIndex groups (TrimPrefix n ''group:'') else [n])
             = (if groupMembers gg n = [] then [n]
                else concat (replicate (count_list ns n) (groupMembers gg n)))"
    if "n \<in> set ns" for n
  proof (cases "HasPrefix n ''group:''")
    case True
    have "mapIndex groups (TrimPrefix n ''group:'') =
            concat (replicate (count_list ns n) (groupMembers gg n))"
      using m[of "TrimPrefix n ''group:''"] reference_parts[OF True] by (simp add: mapIndex_def)
    moreover have "count_list ns n \<noteq> 0" using that by (simp add: count_list_0_iff)
    ultimately show ?thesis using True by (simp add: concat_replicate_empty)
  next
    case False
    then show ?thesis by (simp add: groupMembers_def)
  qed
  have "replaceGroups groups ns = expandNodes gg ns"
    unfolding replaceGroups_plain[OF v] expandNodes_def using False point
    by (simp cong: map_cong)
  then show ?thesis using g False by (simp add: resolveNodes_def)
qed

lemma distinct_mapAppend:
  "distinct (map fst m) \<Longrightarrow> distinct (map fst (mapAppend m k v))"
proof (induction m)
  case Nil
  show ?case by simp
next
  case (Cons kv m)
  obtain k' vs where kv: "kv = (k', vs)" by (cases kv)
  have "k' \<notin> fst ` set (mapAppend m k v)" if "k' \<noteq> k"
    using Cons.prems that by (simp add: kv keys_mapAppend)
  then show ?case using Cons by (auto simp add: kv)
qed

lemma distinct_addSubjects:
  "distinct (map fst m) \<Longrightarrow> distinct (map fst (addSubjects m k subs))"
  by (induction subs arbitrary: m) (simp_all add: distinct_mapAppend)

lemma collectGroups_distinct:
  "collectGroups gg rest groups = Some groups' \<Longrightarrow> distinct (map fst groups) \<Longrightarrow>
   distinct (map fst groups')"
proof (induction rest arbitrary: groups)
  case Nil
  then show ?case by simp
next
  case (Cons node rest)
  show ?case
  proof (cases "HasPrefix node ''group:'' \<and> node \<notin> fst ` set groups")
    case False
    then have "collectGroups gg rest groups = Some groups'"
      using Cons.prems(1) by (auto split: if_splits)
    then show ?thesis using Cons.IH Cons.prems(2) by blast
  next
    case True
    show ?thesis
    proof (cases "gg (TrimPrefix node ''group:'')")
      case (Inl err)
      then have "collectGroups gg rest groups = Some groups'"
        using Cons.prems(1) True by (auto split: if_splits)
      then show ?thesis using Cons.IH Cons.prems(2) by blast
    next
      case (Inr grp)
      let ?g1 = "addSubjects groups (TrimPrefix node ''group:'') (Subjects grp)"
      have c: "collectGroups gg rest ?g1 = Some groups'"
        using Cons.prems(1) True Inr by simp
      have "distinct (map fst ?g1)" using Cons.prems(2) by (rule distinct_addSubjects)
      then show ?thesis using Cons.IH[OF c] by blast
    qed
  qed
qed

lemma replaceGroups_expandNodes:
  assumes "plainGroups gg ns" and "collectGroups gg ns [] = Some groups"
  shows "replaceGroups groups ns = expandNodes gg ns"
  using resolveNodes_plain[OF assms(1), of "[]"] assms(2) by (simp add: resolveNodes_def)

text \<open>
  Go leaves the order in which \<open>range groups\<close> visits the map open. Where group and
  member names are plain, every order gives the same list: \<open>groups'\<close> is the collected
  map, visited in any order.
\<close>

lemma replaceGroups_any_order:
  assumes "plainGroups gg ns" and "collectGroups gg ns [] = Some groups"
    and "set groups' = set groups" and "distinct (map fst groups')"
  shows "replaceGroups groups' ns = expandNodes gg ns"
proof -
  have mem: "list_all (\<lambda>n. list_all (\<lambda>m. \<not> HasPrefix m ''group:'') (groupMembers gg n)) ns"
    using assms(1) by (simp add: plainGroups_def list_all_iff)
  have v: "list_all (\<lambda>kv. snd kv \<noteq> [] \<and> list_all (\<lambda>m. \<not> HasPrefix m ''group:'') (snd kv)) groups"
    using collectGroups_values[OF assms(2) _ mem] by simp
  then have v': "list_all (\<lambda>kv. snd kv \<noteq> [] \<and> list_all (\<lambda>m. \<not> HasPrefix m ''group:'') (snd kv)) groups'"
    using assms(3) by (simp add: list_all_iff)
  have "distinct (map fst groups)"
    using collectGroups_distinct[OF assms(2)] by simp
  then have "map_of groups' = map_of groups"
    using assms(3,4) by (simp add: map_of_inject_set)
  then have "mapIndex groups' = mapIndex groups"
    by (simp add: mapIndex_def fun_eq_iff)
  then have "replaceGroups groups' ns = replaceGroups groups ns"
    by (simp only: replaceGroups_plain[OF v] replaceGroups_plain[OF v'])
  then show ?thesis by (simp only: replaceGroups_expandNodes[OF assms(1,2)])
qed





















section \<open>Properties of snapshot and restore\<close>

lemma exec_done: "txDone tx \<Longrightarrow> exec stmt tx = Inl ErrTxDone"
  by (simp add: exec_def)

lemma restoreTables_done: "txDone tx \<Longrightarrow> restoreTables w m tx = Inl ErrTxDone"
  by (simp add: restoreTables_def andThen_def DropMeshState_def exec_done)

lemma Restore_always_fails: "Restore w m db = (Some ErrTxDone, db)"
proof -
  have "txDone (snd (Rollback (Begin db)))" by (simp add: Rollback_def Begin_def)
  then show ?thesis by (simp add: Restore_def Let_def restoreTables_done)
qed

lemma andThen_Inr: "andThen (Inr tx) f = f tx"
  by (simp add: andThen_def)

lemma exec_open: "\<not> txDone tx \<Longrightarrow> exec stmt tx = Inr (tx\<lparr>tables := stmt (tables tx)\<rparr>)"
  by (simp add: exec_def)

text \<open>
  Claim C3 (snapshot round trip), evaluated on the code. A snapshot of the example
  database, restored on a node whose database is empty, leaves that database empty and
  returns \<open>sql.ErrTxDone\<close>: the rollback closure runs before the first statement, so
  every statement of the transaction is refused (\<open>Restore_always_fails\<close>). The restore
  statements themselves, run on an open transaction, bring the edge back with the
  default weight 1 in place of its weight 5; \<open>restoreTables_open\<close>, after the
  theorem, shows that they restore every other table and field of any database.
\<close>

theorem Restore_loses_snapshot:
  "Snapshot exampleDB = Inr exampleSnapshot
   \<and> Restore 1 exampleSnapshot emptyDB = (Some ErrTxDone, emptyDB)
   \<and> emptyDB \<noteq> exampleDB
   \<and> map_sum id (\<lambda>tx. node_edges (tables tx)) (restoreTables 1 exampleSnapshot (Begin emptyDB))
       = Inr [\<lparr>SrcNodeID = ''a'', DstNodeID = ''b'', EdgeWeight = 1\<rparr>]
   \<and> node_edges exampleDB = [\<lparr>SrcNodeID = ''a'', DstNodeID = ''b'', EdgeWeight = 5\<rparr>]"
proof (intro conjI)
  show "Snapshot exampleDB = Inr exampleSnapshot"
    by (simp add: Snapshot_def exampleSnapshot_def)
next
  show "Restore 1 exampleSnapshot emptyDB = (Some ErrTxDone, emptyDB)"
    by (rule Restore_always_fails)
next
  show "emptyDB \<noteq> exampleDB" by (simp add: emptyDB_def exampleDB_def)
next
  show "map_sum id (\<lambda>tx. node_edges (tables tx)) (restoreTables 1 exampleSnapshot (Begin emptyDB))
           = Inr [\<lparr>SrcNodeID = ''a'', DstNodeID = ''b'', EdgeWeight = 1\<rparr>]"
    by (simp add: restoreTables_def exampleSnapshot_def exampleDB_def emptyDB_def Begin_def
          andThen_Inr exec_open
          DropMeshState_def DropNodes_def DropLeases_def DropRaftACLs_def DropNodeEdges_def
          RestoreMeshState_def RestoreNode_def RestoreLease_def RestoreRaftACL_def RestoreNodeEdge_def)
next
  show "node_edges exampleDB = [\<lparr>SrcNodeID = ''a'', DstNodeID = ''b'', EdgeWeight = 5\<rparr>]"
    by (simp add: exampleDB_def)
qed

lemma forEach_exec_open:
  "\<not> txDone tx \<Longrightarrow>
   forEach (\<lambda>x. exec (g x)) xs tx = Inr (tx\<lparr>tables := foldl (\<lambda>db x. g x db) (tables tx) xs\<rparr>)"
  by (induction xs arbitrary: tx) (simp_all add: exec_open)

lemma row_copies:
  "\<lparr>Key = Key (s :: MeshStateRow), Value = Value s\<rparr> = s"
  "\<lparr>NodeID = NodeID (n :: NodeRow), NodePublicKey = NodePublicKey n, RaftPort = RaftPort n,
    GrpcPort = GrpcPort n, WireguardPort = WireguardPort n, PublicEndpoint = PublicEndpoint n,
    NetworkIpv6 = NetworkIpv6 n, NodeCreatedAt = NodeCreatedAt n, NodeUpdatedAt = NodeUpdatedAt n\<rparr> = n"
  "\<lparr>LeaseNodeID = LeaseNodeID (l :: LeaseRow), Ipv4 = Ipv4 l, LeaseCreatedAt = LeaseCreatedAt l\<rparr> = l"
  "\<lparr>AclName = AclName (a :: RaftAclRow), AclNodes = AclNodes a, AclAction = AclAction a,
    AclCreatedAt = AclCreatedAt a, AclUpdatedAt = AclUpdatedAt a\<rparr> = a"
  "\<lparr>SrcNodeID = SrcNodeID (e :: NodeEdgeRow), DstNodeID = DstNodeID e, EdgeWeight = w\<rparr>
     = e\<lparr>EdgeWeight := w\<rparr>"
  by simp_all

lemma restoreTables_open:
  "restoreTables w \<lparr>State = mesh_state db, Nodes = nodes db, Leases = leases db,
                     RaftACLs = raft_acls db, NodeEdges = node_edges db\<rparr> (Begin db0)
     = Inr \<lparr>tables = db\<lparr>node_edges := map (\<lambda>e. e\<lparr>EdgeWeight := w\<rparr>) (node_edges db)\<rparr>,
            txDone = False\<rparr>"
proof -
  have 1: "foldl (\<lambda>d x. d\<lparr>mesh_state := mesh_state d @ [x]\<rparr>) d xs
             = d\<lparr>mesh_state := mesh_state d @ xs\<rparr>" for d xs
    by (induction xs arbitrary: d) simp_all
  have 2: "foldl (\<lambda>d x. d\<lparr>nodes := nodes d @ [x]\<rparr>) d xs = d\<lparr>nodes := nodes d @ xs\<rparr>" for d xs
    by (induction xs arbitrary: d) simp_all
  have 3: "foldl (\<lambda>d x. d\<lparr>leases := leases d @ [x]\<rparr>) d xs = d\<lparr>leases := leases d @ xs\<rparr>" for d xs
    by (induction xs arbitrary: d) simp_all
  have 4: "foldl (\<lambda>d x. d\<lparr>raft_acls := raft_acls d @ [x]\<rparr>) d xs
             = d\<lparr>raft_acls := raft_acls d @ xs\<rparr>" for d xs
    by (induction xs arbitrary: d) simp_all
  have 5: "foldl (\<lambda>d e. d\<lparr>node_edges := node_edges d @ [e\<lparr>EdgeWeight := w\<rparr>]\<rparr>) d xs
             = d\<lparr>node_edges := node_edges d @ map (\<lambda>e. e\<lparr>EdgeWeight := w\<rparr>) xs\<rparr>" for d xs
    by (induction xs arbitrary: d) simp_all
  show ?thesis
    by (simp add: restoreTables_def Begin_def andThen_Inr exec_open forEach_exec_open
          DropMeshState_def DropNodes_def DropLeases_def DropRaftACLs_def DropNodeEdges_def
          RestoreMeshState_def RestoreNode_def RestoreLease_def RestoreRaftACL_def
          RestoreNodeEdge_def row_copies 1 2 3 4 5)
qed

section \<open>Properties of the raft observer\<close>

lemma observe_snoc: "observe s (evs @ [ev]) = observeStep (observe s evs) ev"
  by (simp add: observe_def)

lemma failedCount_Failed_below:
  "failedCount s peer \<le> 30 \<Longrightarrow> 0 \<le> failedCount s peer \<Longrightarrow>
   failedCount (observeStep s (FailedHeartbeatObservation peer)) peer = failedCount s peer + 1"
  by (auto simp add: failedCount_def split: option.splits)

lemma removeNonvoter_failedHeartbeats:
  "failedHeartbeats (removeNonvoter peer cfg s) = failedHeartbeats s"
  by (induction cfg arbitrary: s) (simp_all add: RemoveServer_def DeletePeer_def)

lemma observeStep_other_count:
  "ev \<noteq> FailedHeartbeatObservation peer \<Longrightarrow>
   failedCount (observeStep s ev) peer = failedCount s peer"
  by (cases ev) (auto simp add: failedCount_def Let_def removeNonvoter_failedHeartbeats)

text \<open>
  Claim C4, amended. A resumed heartbeat changes no counter. Starting from a cleared
  counter, the counter of a peer is the number of failed heartbeats observed for that
  peer, up to 31, whatever was observed in between: resumed heartbeats of the peer and
  observations about other peers do not restart the count.
\<close>

theorem failedCount_counts_every_failure:
  assumes "failedHeartbeats s peer = None"
    and "count_list evs (FailedHeartbeatObservation peer) \<le> 31"
  shows "failedCount (observe s evs) peer = int (count_list evs (FailedHeartbeatObservation peer))"
  using assms(2)
proof (induction evs rule: rev_induct)
  case Nil
  show ?case using assms(1) by (simp add: observe_def failedCount_def)
next
  case (snoc ev evs)
  have c: "count_list (evs @ [ev]) x = count_list evs x + (if ev = x then 1 else 0)" for x
    by (induction evs) auto
  have ih: "failedCount (observe s evs) peer = int (count_list evs (FailedHeartbeatObservation peer))"
    using snoc by (auto simp add: c split: if_splits)
  show ?case
  proof (cases "ev = FailedHeartbeatObservation peer")
    case True
    then have "count_list evs (FailedHeartbeatObservation peer) \<le> 30"
      using snoc.prems by (simp add: c)
    then show ?thesis
      using ih True failedCount_Failed_below[of "observe s evs" peer]
      by (simp add: observe_snoc c)
  next
    case False
    then show ?thesis using ih by (simp add: observe_snoc c observeStep_other_count)
  qed
qed

text \<open>
  The theorem at two failed heartbeats of \<open>p\<close> with a resumed heartbeat of \<open>p\<close> and a
  failed heartbeat of \<open>v\<close> in between.
\<close>

theorem failedCount_counts_every_failure_witness:
  "failedHeartbeats observer0 ''p'' = None
   \<and> failedCount (observe observer0
        [FailedHeartbeatObservation ''p'', ResumedHeartbeatObservation ''p'',
         FailedHeartbeatObservation ''v'', FailedHeartbeatObservation ''p'']) ''p'' = 2"
proof -
  have h: "failedHeartbeats observer0 ''p'' = None" by (simp add: observer0_def)
  show ?thesis
    using h failedCount_counts_every_failure[OF h,
      of "[FailedHeartbeatObservation ''p'', ResumedHeartbeatObservation ''p'',
           FailedHeartbeatObservation ''v'', FailedHeartbeatObservation ''p'']"]
    by simp
qed

text \<open>
  Claim C4 fails as stated: after two failed heartbeats of \<open>p\<close>, the observation of a
  resumed heartbeat of \<open>p\<close> leaves the counter of \<open>p\<close> at 2.
\<close>

theorem ResumedHeartbeat_keeps_count:
  "failedCount (observeStep (observe observer0 [FailedHeartbeatObservation ''p'', FailedHeartbeatObservation ''p''])
       (ResumedHeartbeatObservation ''p'')) ''p'' = 2"
  by (simp add: observe_def failedCount_def observer0_def)

lemma observe_replicate_Failed:
  assumes "failedHeartbeats s peer = None" "0 < k" "k \<le> 31"
  shows "observe s (replicate k (FailedHeartbeatObservation peer))
           = s\<lparr>failedHeartbeats := (failedHeartbeats s)(peer \<mapsto> int k)\<rparr>"
  using assms(2,3)
proof (induction k)
  case 0
  then show ?case by simp
next
  case (Suc k)
  show ?case
  proof (cases "k = 0")
    case True
    then show ?thesis using assms(1) by (simp add: observe_def failedCount_def fun_upd_def)
  next
    case False
    have ih: "observe s (replicate k (FailedHeartbeatObservation peer))
           = s\<lparr>failedHeartbeats := (failedHeartbeats s)(peer \<mapsto> int k)\<rparr>"
      by (rule Suc.IH) (use False Suc.prems in simp_all)
    have r: "replicate (Suc k) (FailedHeartbeatObservation peer)
               = replicate k (FailedHeartbeatObservation peer) @ [FailedHeartbeatObservation peer]"
      by (simp add: replicate_append_same)
    show ?thesis using False Suc.prems
      by (simp only: r observe_snoc ih) (simp add: failedCount_def fun_upd_def algebra_simps cong: if_cong)
  qed
qed

lemma observer0_after_failures:
  "0 < k \<Longrightarrow> k \<le> 31 \<Longrightarrow>
   observe observer0 (replicate k (FailedHeartbeatObservation peer))
     = observer0\<lparr>failedHeartbeats := [peer \<mapsto> int k]\<rparr>"
  using observe_replicate_Failed[of observer0 peer k] by (simp add: observer0_def)

text \<open>
  Claim C5 (removal of a non-voter after 30 missed heartbeats), evaluated on the code.
  On the leader, 30 failed heartbeats of the non-voter \<open>p\<close> in a row, and also 31,
  leave \<open>p\<close> in the configuration and in the peers store: the test is
  \<open>failedHeartbeats[p] > 30\<close> and it is made before the counter is incremented. The
  32nd failed heartbeat removes \<open>p\<close> and its node record and clears the counter. For
  the voter \<open>v\<close> the 32nd failed heartbeat clears the counter and removes nothing.
  The lemmas after it give the parts that hold in general: once the counter is above 30
  the next failed heartbeat removes a non-voter on the leader and clears the counter,
  and a peer that is not a non-voter is never removed.
\<close>

theorem thirty_failed_heartbeats_remove_nothing:
  "servers (observe observer0 (replicate 30 (FailedHeartbeatObservation ''p''))) = servers observer0
   \<and> peerRecords (observe observer0 (replicate 30 (FailedHeartbeatObservation ''p''))) = [''l'', ''p'', ''v'']
   \<and> failedCount (observe observer0 (replicate 30 (FailedHeartbeatObservation ''p''))) ''p'' = 30
   \<and> servers (observe observer0 (replicate 31 (FailedHeartbeatObservation ''p''))) = servers observer0
   \<and> peerRecords (observe observer0 (replicate 31 (FailedHeartbeatObservation ''p''))) = [''l'', ''p'', ''v'']
   \<and> map ServerID (servers (observe observer0 (replicate 32 (FailedHeartbeatObservation ''p'')))) = [''l'', ''v'']
   \<and> peerRecords (observe observer0 (replicate 32 (FailedHeartbeatObservation ''p''))) = [''l'', ''v'']
   \<and> failedCount (observe observer0 (replicate 32 (FailedHeartbeatObservation ''p''))) ''p'' = 0
   \<and> servers (observe observer0 (replicate 32 (FailedHeartbeatObservation ''v''))) = servers observer0
   \<and> failedCount (observe observer0 (replicate 32 (FailedHeartbeatObservation ''v''))) ''v'' = 0"
proof -
  have s30: "observe observer0 (replicate 30 (FailedHeartbeatObservation ''p''))
               = observer0\<lparr>failedHeartbeats := [''p'' \<mapsto> 30]\<rparr>"
    using observer0_after_failures[of 30 "''p''"] by simp
  have s31: "observe observer0 (replicate 31 (FailedHeartbeatObservation peer))
               = observer0\<lparr>failedHeartbeats := [peer \<mapsto> 31]\<rparr>" for peer
    using observer0_after_failures[of 31 peer] by simp
  have r32: "replicate 32 (FailedHeartbeatObservation peer)
               = replicate 31 (FailedHeartbeatObservation peer) @ [FailedHeartbeatObservation peer]" for peer
  proof -
    have "(32::nat) = Suc 31" by simp
    then show ?thesis by (simp only: replicate_Suc replicate_append_same)
  qed
  have s32: "observe observer0 (replicate 32 (FailedHeartbeatObservation peer))
               = observeStep (observer0\<lparr>failedHeartbeats := [peer \<mapsto> 31]\<rparr>) (FailedHeartbeatObservation peer)" for peer
    by (simp only: r32 observe_snoc s31)
  show ?thesis
    by (simp only: s30 s31 s32)
       (simp add: failedCount_def observer0_def RemoveServer_def DeletePeer_def)
qed

lemma removeNonvoter_no_match:
  "\<forall>srv\<in>set cfg. ServerID srv = peer \<longrightarrow> Suffrage srv \<noteq> Nonvoter \<Longrightarrow>
   removeNonvoter peer cfg s = s"
  by (induction cfg arbitrary: s) auto

lemma voter_never_removed:
  assumes "\<forall>srv\<in>set (servers s). ServerID srv = peer \<longrightarrow> Suffrage srv \<noteq> Nonvoter"
  shows "servers (observeStep s (FailedHeartbeatObservation peer)) = servers s
       \<and> peerRecords (observeStep s (FailedHeartbeatObservation peer)) = peerRecords s"
  using removeNonvoter_no_match[OF assms, of s] by (simp add: Let_def)

lemma counter_cleared_above_threshold:
  "30 < failedCount s peer \<Longrightarrow>
   failedCount (observeStep s (FailedHeartbeatObservation peer)) peer = 0"
  by (simp add: failedCount_def Let_def)

lemma nonvoter_removed_above_threshold:
  assumes "30 < failedCount s peer" and "isLeader s"
    and "\<exists>srv\<in>set (servers s). ServerID srv = peer \<and> Suffrage srv = Nonvoter"
    and "\<not> removeServerFails s" and "\<not> deleteFails s"
  shows "peer \<notin> ServerID ` set (servers (observeStep s (FailedHeartbeatObservation peer)))
       \<and> peer \<notin> set (peerRecords (observeStep s (FailedHeartbeatObservation peer)))"
proof -
  have gone: "peer \<notin> ServerID ` set (servers t) \<and> peer \<notin> set (peerRecords t) \<Longrightarrow>
      peer \<notin> ServerID ` set (servers (removeNonvoter peer cfg t))
      \<and> peer \<notin> set (peerRecords (removeNonvoter peer cfg t))" for cfg t
  proof (induction cfg arbitrary: t)
    case Nil
    then show ?case by simp
  next
    case (Cons srv cfg)
    have "peer \<notin> ServerID ` set (servers (DeletePeer peer (RemoveServer peer t)))
          \<and> peer \<notin> set (peerRecords (DeletePeer peer (RemoveServer peer t)))"
      using Cons.prems by (auto simp add: DeletePeer_def RemoveServer_def)
    then show ?case using Cons by simp
  qed
  have main: "\<exists>srv\<in>set cfg. ServerID srv = peer \<and> Suffrage srv = Nonvoter \<Longrightarrow>
      \<not> removeServerFails t \<Longrightarrow> \<not> deleteFails t \<Longrightarrow>
      peer \<notin> ServerID ` set (servers (removeNonvoter peer cfg t))
      \<and> peer \<notin> set (peerRecords (removeNonvoter peer cfg t))" for cfg t
  proof (induction cfg arbitrary: t)
    case Nil
    then show ?case by simp
  next
    case (Cons srv cfg)
    show ?case
    proof (cases "ServerID srv = peer \<and> Suffrage srv = Nonvoter")
      case True
      have "peer \<notin> ServerID ` set (servers (DeletePeer peer (RemoveServer peer t)))
          \<and> peer \<notin> set (peerRecords (DeletePeer peer (RemoveServer peer t)))"
        using Cons.prems(2,3) by (auto simp add: DeletePeer_def RemoveServer_def)
      then show ?thesis using True gone by simp
    next
      case False
      then show ?thesis using Cons by auto
    qed
  qed
  show ?thesis using assms main[of "servers s" s] by (simp add: Let_def)
qed

section \<open>Properties of Leave\<close>

lemma raftRemoveServer_ok:
  "raftRemoveServer nodeID s = (None, s1) \<Longrightarrow>
   s1 = s\<lparr>effects := effects s @ [RemovedServer nodeID],
          configuration := map_sum id (filter (\<lambda>srv. ServerID srv \<noteq> nodeID)) (configuration s)\<rparr>"
  by (simp add: raftRemoveServer_def Let_def split: if_splits)

lemma peersDelete_ok:
  "peersDelete nodeID s = (None, s2) \<Longrightarrow>
   s2 = s\<lparr>effects := effects s @ [DeletedNode nodeID],
          peersDB := cascadeDelete nodeID (peersDB s)\<rparr>"
  by (simp add: peersDelete_def Let_def split: if_splits)

text \<open>
  Claim C9, amended. A leave request that succeeds for a node in the raft
  configuration removes the node's server from the configuration, then deletes the
  node record (with its leases, ASNs and edges), and waits for the barrier last; for a
  node that is not a raft member the deletion of the node record is the only effect.
\<close>

theorem Leave_effects_in_order:
  assumes "Leave s reqId = (Inr (), s')"
  shows "\<exists>cfg. configuration s = Inr cfg
     \<and> effects s' = effects s @
          (if reqId \<in> ServerID ` set cfg
           then [RemovedServer reqId, DeletedNode reqId, WaitedBarrier]
           else [DeletedNode reqId])
     \<and> peersDB s' = cascadeDelete reqId (peersDB s)
     \<and> configuration s' = Inr (filter (\<lambda>srv. ServerID srv \<noteq> reqId) cfg)"
proof -
  from assms obtain cfg where cfg: "configuration s = Inr cfg"
    by (cases "configuration s") (auto simp add: Leave_def split: if_splits)
  have pre: "reqId \<noteq> []" "leader s" "authorized s reqId"
    using assms by (auto simp add: Leave_def split: if_splits)
  show ?thesis
  proof (cases "reqId \<in> ServerID ` set cfg")
    case True
    then have ex: "list_ex (\<lambda>srv. ServerID srv = reqId) cfg" by (auto simp add: list_ex_iff)
    obtain e1 s1 where r: "raftRemoveServer reqId s = (e1, s1)" by (cases "raftRemoveServer reqId s")
    obtain e2 s2 where d: "peersDelete reqId s1 = (e2, s2)" by (cases "peersDelete reqId s1")
    from assms pre cfg ex r have e1: "e1 = None"
      by (cases e1) (simp_all add: Leave_def)
    from assms pre cfg ex r d e1 have e2: "e2 = None"
      by (cases e2) (simp_all add: Leave_def)
    from assms pre cfg ex r d e1 e2 have s': "s' = raftBarrier s2"
      by (simp add: Leave_def)
    have s1: "s1 = s\<lparr>effects := effects s @ [RemovedServer reqId],
          configuration := map_sum id (filter (\<lambda>srv. ServerID srv \<noteq> reqId)) (configuration s)\<rparr>"
      using r e1 by (simp add: raftRemoveServer_ok)
    have s2: "s2 = s1\<lparr>effects := effects s1 @ [DeletedNode reqId],
          peersDB := cascadeDelete reqId (peersDB s1)\<rparr>"
      using d e2 by (simp add: peersDelete_ok)
    show ?thesis using True cfg by (simp add: s' s2 s1 raftBarrier_def)
  next
    case False
    then have ex: "\<not> list_ex (\<lambda>srv. ServerID srv = reqId) cfg" by (auto simp add: list_ex_iff)
    obtain e2 s2 where d: "peersDelete reqId s = (e2, s2)" by (cases "peersDelete reqId s")
    from assms pre cfg ex d have e2: "e2 = None"
      by (cases e2) (simp_all add: Leave_def)
    from assms pre cfg ex d e2 have s': "s' = s2"
      by (simp add: Leave_def)
    have s2: "s2 = s\<lparr>effects := effects s @ [DeletedNode reqId],
          peersDB := cascadeDelete reqId (peersDB s)\<rparr>"
      using d e2 by (simp add: peersDelete_ok)
    have f: "filter (\<lambda>srv. ServerID srv \<noteq> reqId) cfg = cfg"
      using False by (auto simp add: filter_id_conv)
    show ?thesis using False cfg by (simp add: s' s2 f)
  qed
qed

lemma Leave_membership0:
  "Leave membership0 ''p'' =
     (Inr (), membership0\<lparr>
        configuration := Inr [\<lparr>Suffrage = Voter, ServerID = ''l'', ServerAddress = ''l:9443''\<rparr>],
        peersDB := \<lparr>nodeIDs = [''l''], leaseNodes = [''l''], asnNodes = [], edgePairs = []\<rparr>,
        effects := [RemovedServer ''p'', DeletedNode ''p'', WaitedBarrier]\<rparr>)"
  by (simp add: Leave_def membership0_def authorized_def raftRemoveServer_def peersDelete_def
        raftBarrier_def cascadeDelete_def)

text \<open>
  Claim C9 fails as stated: for a node in the raft configuration the barrier is the
  last of the three effects, not the second. It is deferred, so it runs after the node
  record has been deleted.
\<close>

theorem Leave_barrier_after_delete:
  "fst (Leave membership0 ''p'') = Inr ()
   \<and> effects (snd (Leave membership0 ''p'')) = [RemovedServer ''p'', DeletedNode ''p'', WaitedBarrier]
   \<and> effects (snd (Leave membership0 ''p'')) \<noteq> [RemovedServer ''p'', WaitedBarrier, DeletedNode ''p'']"
  by (simp add: Leave_membership0)

text \<open>
  The theorem at the leave request of the non-voter \<open>p\<close>.
\<close>

theorem Leave_effects_in_order_witness:
  "Leave membership0 ''p'' = (Inr (), snd (Leave membership0 ''p''))
   \<and> effects (snd (Leave membership0 ''p'')) = [RemovedServer ''p'', DeletedNode ''p'', WaitedBarrier]
   \<and> nodeIDs (peersDB (snd (Leave membership0 ''p''))) = [''l'']
   \<and> edgePairs (peersDB (snd (Leave membership0 ''p''))) = []"
proof -
  have h: "Leave membership0 ''p'' = (Inr (), snd (Leave membership0 ''p''))"
    by (simp add: Leave_membership0)
  have e: "effects membership0 = []" "peersDB membership0
      = \<lparr>nodeIDs = [''l'', ''p''], leaseNodes = [''l'', ''p''], asnNodes = [''p''],
                 edgePairs = [(''l'', ''p'')]\<rparr>"
    "configuration membership0 = Inr [\<lparr>Suffrage = Voter, ServerID = ''l'', ServerAddress = ''l:9443''\<rparr>,
                           \<lparr>Suffrage = Nonvoter, ServerID = ''p'', ServerAddress = ''p:9443''\<rparr>]"
    by (simp_all add: membership0_def)
  show ?thesis
    using h Leave_effects_in_order[OF h]
    by (auto simp add: e cascadeDelete_def)
qed

section \<open>Properties of the topology resolver\<close>

lemma Vertex_Id: "Vertex st nodeID = Inr n \<Longrightarrow> Id n = nodeID"
  by (auto simp add: Vertex_def split: option.splits dest: find_Some_iff[THEN iffD1])

lemma set_appendMissing: "set (appendMissing acc xs) = set acc \<union> set xs"
  by (induction xs arbitrary: acc) auto

lemma appendMissing_Nil: "appendMissing acc [] = acc"
  by simp

lemma addCidrs_sound:
  "addCidrs ip thisRoutes cidrs acc = Inr res \<Longrightarrow>
   set res \<subseteq> set acc \<union> {p. \<exists>cidr\<in>set cidrs. ParsePrefix ip cidr = Some p}"
proof (induction cidrs arbitrary: acc)
  case Nil
  then show ?case by simp
next
  case (Cons cidr rest)
  then obtain prefix where p: "ParsePrefix ip cidr = Some prefix"
    by (cases "ParsePrefix ip cidr") auto
  let ?acc' = "if prefix \<notin> set acc \<and> prefix \<notin> set thisRoutes then acc @ [prefix] else acc"
  have "addCidrs ip thisRoutes rest ?acc' = Inr res" using Cons.prems p by simp
  then have "set res \<subseteq> set ?acc' \<union> {p. \<exists>cidr\<in>set rest. ParsePrefix ip cidr = Some p}"
    by (rule Cons.IH)
  then show ?case using p by (auto split: if_splits)
qed

lemma openPath_key:
  "openPath st adj self d t \<Longrightarrow> \<exists>n. Vertex st t = Inr n \<and> PublicKey n \<noteq> []"
  by (induction rule: openPath.induct) auto

lemma reachedFrom_own:
  "openPath st adj self d t \<Longrightarrow> Vertex st t = Inr node \<Longrightarrow> p \<in> set (ownAddrs ip node)
   \<Longrightarrow> reachedFrom ip st adj self d p"
  using openPath_key[of st adj self d t]
  by (auto simp add: reachedFrom_def contributes_def)

lemma reachedFrom_route:
  "openPath st adj self d t \<Longrightarrow> Vertex st t = Inr node \<Longrightarrow>
   RoutesByNode st (Id node) = Inr routes \<Longrightarrow> cidr \<in> set (routeCidrs routes) \<Longrightarrow>
   ParsePrefix ip cidr = Some p \<Longrightarrow> reachedFrom ip st adj self d p"
  using openPath_key[of st adj self d t]
  by (auto simp add: reachedFrom_def contributes_def)

lemma addCidrs_reached:
  assumes "addCidrs ip thisRoutes (routeCidrs routes) acc = Inr res"
    and "openPath st adj self d t" "Vertex st t = Inr node"
    and "RoutesByNode st (Id node) = Inr routes"
    and "\<forall>p\<in>set acc. reachedFrom ip st adj self d p"
  shows "\<forall>p\<in>set res. reachedFrom ip st adj self d p"
proof
  fix p assume "p \<in> set res"
  then have "p \<in> set acc \<or> (\<exists>cidr\<in>set (routeCidrs routes). ParsePrefix ip cidr = Some p)"
    using addCidrs_sound[OF assms(1)] by auto
  then show "reachedFrom ip st adj self d p"
  proof
    assume "p \<in> set acc"
    then show ?thesis using assms(5) by simp
  next
    assume "\<exists>cidr\<in>set (routeCidrs routes). ParsePrefix ip cidr = Some p"
    then obtain cidr where "cidr \<in> set (routeCidrs routes)" "ParsePrefix ip cidr = Some p" by auto
    then show ?thesis by (rule reachedFrom_route[OF assms(2) assms(3) assms(4)])
  qed
qed

lemma recurseTargets_sound:
  assumes IH: "\<And>node visited ips rts vis'.
      recurseEdges n ip st adj self thisRoutes node visited = Some (Inr (ips, rts, vis')) \<Longrightarrow>
      Vertex st (Id node) = Inr node \<Longrightarrow>
      openPath st adj self d (Id node) \<Longrightarrow>
      rts = [] \<and> (\<forall>p\<in>set ips. reachedFrom ip st adj self d p)"
  shows "recurseTargets n ip st adj self thisRoutes targets visited ips0 rts0
           = Some (Inr (ips, rts, vis')) \<Longrightarrow>
         fst ` set targets \<subseteq> fst ` set (adjacent adj cur) \<Longrightarrow>
         openPath st adj self d cur \<Longrightarrow>
         rts0 = [] \<Longrightarrow>
         \<forall>p\<in>set ips0. reachedFrom ip st adj self d p \<Longrightarrow>
         rts = [] \<and> (\<forall>p\<in>set ips. reachedFrom ip st adj self d p)"
proof (induction targets arbitrary: visited ips0 rts0)
  case Nil
  then show ?case by simp
next
  case (Cons te rest)
  obtain target e where te: "te = (target, e)" by (cases te)
  have sub: "fst ` set rest \<subseteq> fst ` set (adjacent adj cur)" using Cons.prems(2) by auto
  have tin: "target \<in> fst ` set (adjacent adj cur)" using Cons.prems(2) te by auto
  show ?case
  proof (cases "target = self \<or> target \<in> fst ` set (adjacent adj self) \<or> target \<in> visited")
    case True
    then have "recurseTargets n ip st adj self thisRoutes rest visited ips0 rts0
                 = Some (Inr (ips, rts, vis'))"
      using Cons.prems(1) te by (auto split: if_splits)
    then show ?thesis using Cons.IH sub Cons.prems(3-5) by blast
  next
    case False
    then obtain targetNode where v: "Vertex st target = Inr targetNode"
      using Cons.prems(1) te by (cases "Vertex st target") auto
    have idt: "Id targetNode = target" using v by (rule Vertex_Id)
    show ?thesis
    proof (cases "PublicKey targetNode = []")
      case True
      then have "recurseTargets n ip st adj self thisRoutes rest (insert target visited) ips0 rts0
                 = Some (Inr (ips, rts, vis'))"
        using Cons.prems(1) te False v by simp
      then show ?thesis using Cons.IH sub Cons.prems(3-5) by blast
    next
      case key: False
      have path: "openPath st adj self d target"
        using openPath.step[OF Cons.prems(3) tin _ _ v key] False by blast
      obtain routes where r: "RoutesByNode st (Id targetNode) = Inr routes"
        using Cons.prems(1) te False v key by (cases "RoutesByNode st (Id targetNode)") auto
      obtain ips1 where a: "addCidrs ip thisRoutes (routeCidrs routes) (ips0 @ ownAddrs ip targetNode) = Inr ips1"
        using Cons.prems(1) te False v key r
        by (cases "addCidrs ip thisRoutes (routeCidrs routes) (ips0 @ ownAddrs ip targetNode)") auto
      obtain eips erts vis1 where
        re: "recurseEdges n ip st adj self thisRoutes targetNode (insert target visited)
               = Some (Inr (eips, erts, vis1))"
        using Cons.prems(1) te False v key r a
        by (auto split: option.splits sum.splits)
      have rest: "recurseTargets n ip st adj self thisRoutes rest vis1
                    (appendMissing ips1 eips) (appendMissing rts0 erts) = Some (Inr (ips, rts, vis'))"
        using Cons.prems(1) te False v key r a re by simp
      have good0: "\<forall>p\<in>set (ips0 @ ownAddrs ip targetNode). reachedFrom ip st adj self d p"
        using Cons.prems(5) reachedFrom_own[OF path v] by auto
      have good1: "\<forall>p\<in>set ips1. reachedFrom ip st adj self d p"
        using addCidrs_reached[OF a path v r good0] .
      have e: "erts = [] \<and> (\<forall>p\<in>set eips. reachedFrom ip st adj self d p)"
        using IH[OF re] v idt path by simp
      have good2: "\<forall>p\<in>set (appendMissing ips1 eips). reachedFrom ip st adj self d p"
        using good1 e by (auto simp add: set_appendMissing)
      have r0: "appendMissing rts0 erts = []" using e Cons.prems(4) by simp
      show ?thesis using Cons.IH[OF rest sub Cons.prems(3) r0 good2] .
    qed
  qed
qed

lemma recurseEdges_sound:
  "recurseEdges n ip st adj self thisRoutes node visited = Some (Inr (ips, rts, vis')) \<Longrightarrow>
   Vertex st (Id node) = Inr node \<Longrightarrow>
   openPath st adj self d (Id node) \<Longrightarrow>
   rts = [] \<and> (\<forall>p\<in>set ips. reachedFrom ip st adj self d p)"
proof (induction n arbitrary: node visited ips rts vis')
  case 0
  then show ?case by simp
next
  case (Suc n)
  have t: "recurseTargets n ip st adj self thisRoutes (adjacent adj (Id node))
          (insert (Id node) visited) [] [] = Some (Inr (ips, rts, vis'))"
    using Suc.prems(1) by simp
  show ?case
  proof (rule recurseTargets_sound[where cur="Id node" and n=n and thisRoutes=thisRoutes])
    fix node' visited' ips' rts' vis''
    assume "recurseEdges n ip st adj self thisRoutes node' visited' = Some (Inr (ips', rts', vis''))"
      and "Vertex st (Id node') = Inr node'" and "openPath st adj self d (Id node')"
    then show "rts' = [] \<and> (\<forall>p\<in>set ips'. reachedFrom ip st adj self d p)"
      by (rule Suc.IH)
  next
    show "recurseTargets n ip st adj self thisRoutes (adjacent adj (Id node))
          (insert (Id node) visited) [] [] = Some (Inr (ips, rts, vis'))" by (rule t)
  next
    show "fst ` set (adjacent adj (Id node)) \<subseteq> fst ` set (adjacent adj (Id node))" by simp
  next
    show "openPath st adj self d (Id node)" by (rule Suc.prems(3))
  next
    show "[] = ([] :: 'a list)" by simp
  next
    show "\<forall>p\<in>set []. reachedFrom ip st adj self d p" by simp
  qed
qed

lemma adjacent_targetIDs: "fst ` set (adjacent adj k) \<subseteq> set (targetIDs adj)"
proof (cases "map_of adj k")
  case None
  then show ?thesis by (simp add: adjacent_def)
next
  case (Some targets)
  then have "(k, targets) \<in> set adj" by (rule map_of_SomeD)
  then show ?thesis using Some by (force simp add: adjacent_def targetIDs_def)
qed

lemma recurseTargets_mono:
  assumes IH: "\<And>node visited r. recurseEdges n ip st adj self thisRoutes node visited = Some (Inr r)
                 \<Longrightarrow> visited \<subseteq> snd (snd r)"
  shows "recurseTargets n ip st adj self thisRoutes targets visited ips0 rts0 = Some (Inr r)
         \<Longrightarrow> visited \<subseteq> snd (snd r)"
proof (induction targets arbitrary: visited ips0 rts0)
  case Nil
  then show ?case by auto
next
  case (Cons te rest)
  obtain target e where te: "te = (target, e)" by (cases te)
  show ?case
  proof (cases "target = self \<or> target \<in> fst ` set (adjacent adj self) \<or> target \<in> visited")
    case True
    then have "recurseTargets n ip st adj self thisRoutes rest visited ips0 rts0 = Some (Inr r)"
      using Cons.prems te by (auto split: if_splits)
    then show ?thesis by (rule Cons.IH)
  next
    case False
    then obtain targetNode where v: "Vertex st target = Inr targetNode"
      using Cons.prems te by (cases "Vertex st target") auto
    show ?thesis
    proof (cases "PublicKey targetNode = []")
      case True
      then have "recurseTargets n ip st adj self thisRoutes rest (insert target visited) ips0 rts0
                 = Some (Inr r)"
        using Cons.prems te False v by simp
      then have "insert target visited \<subseteq> snd (snd r)" by (rule Cons.IH)
      then show ?thesis by blast
    next
      case key: False
      obtain routes where rt: "RoutesByNode st (Id targetNode) = Inr routes"
        using Cons.prems te False v key by (cases "RoutesByNode st (Id targetNode)") auto
      obtain ips1 where a: "addCidrs ip thisRoutes (routeCidrs routes) (ips0 @ ownAddrs ip targetNode) = Inr ips1"
        using Cons.prems te False v key rt
        by (cases "addCidrs ip thisRoutes (routeCidrs routes) (ips0 @ ownAddrs ip targetNode)") auto
      obtain eips erts vis1 where
        re: "recurseEdges n ip st adj self thisRoutes targetNode (insert target visited)
               = Some (Inr (eips, erts, vis1))"
        using Cons.prems te False v key rt a
        by (auto split: option.splits sum.splits)
      have rest: "recurseTargets n ip st adj self thisRoutes rest vis1
                    (appendMissing ips1 eips) (appendMissing rts0 erts) = Some (Inr r)"
        using Cons.prems te False v key rt a re by simp
      have "insert target visited \<subseteq> vis1" using IH[OF re] by simp
      moreover have "vis1 \<subseteq> snd (snd r)" using rest by (rule Cons.IH)
      ultimately show ?thesis by blast
    qed
  qed
qed

lemma recurseEdges_mono:
  "recurseEdges n ip st adj self thisRoutes node visited = Some (Inr r) \<Longrightarrow> visited \<subseteq> snd (snd r)"
proof (induction n arbitrary: node visited r)
  case 0
  then show ?case by simp
next
  case (Suc n)
  have "recurseTargets n ip st adj self thisRoutes (adjacent adj (Id node))
          (insert (Id node) visited) [] [] = Some (Inr r)"
    using Suc.prems by simp
  then have "insert (Id node) visited \<subseteq> snd (snd r)"
    by (rule recurseTargets_mono[rotated]) (rule Suc.IH)
  then show ?case by blast
qed

lemma card_Diff_mono: "finite U \<Longrightarrow> A \<subseteq> B \<Longrightarrow> card (U - B) \<le> card (U - A)"
  by (rule card_mono) auto

lemma card_Diff_insert_less:
  "finite U \<Longrightarrow> t \<in> U \<Longrightarrow> t \<notin> A \<Longrightarrow> card (U - insert t A) < card (U - A)"
  by (rule psubset_card_mono) auto

lemma recurseTargets_total:
  assumes IH: "\<And>node visited. card (set (targetIDs adj) - visited) < n
                 \<Longrightarrow> recurseEdges n ip st adj self thisRoutes node visited \<noteq> None"
  shows "fst ` set targets \<subseteq> set (targetIDs adj) \<Longrightarrow>
         card (set (targetIDs adj) - visited) \<le> n \<Longrightarrow>
         recurseTargets n ip st adj self thisRoutes targets visited ips0 rts0 \<noteq> None"
proof (induction targets arbitrary: visited ips0 rts0)
  case Nil
  then show ?case by simp
next
  case (Cons te rest)
  obtain target e where te: "te = (target, e)" by (cases te)
  have sub: "fst ` set rest \<subseteq> set (targetIDs adj)" using Cons.prems(1) by auto
  have tin: "target \<in> set (targetIDs adj)" using Cons.prems(1) te by auto
  let ?U = "set (targetIDs adj)"
  show ?case
  proof (cases "target = self \<or> target \<in> fst ` set (adjacent adj self) \<or> target \<in> visited")
    case True
    then show ?thesis using Cons.IH[OF sub Cons.prems(2)] te by auto
  next
    case False
    have less: "card (?U - insert target visited) < card (?U - visited)"
      using tin False by (intro card_Diff_insert_less) auto
    have le1: "card (?U - insert target visited) \<le> n" using less Cons.prems(2) by simp
    show ?thesis
    proof (cases "Vertex st target")
      case (Inl err)
      then show ?thesis using te False by simp
    next
      case (Inr targetNode)
      show ?thesis
      proof (cases "PublicKey targetNode = []")
        case True
        then show ?thesis using Cons.IH[OF sub le1] te False Inr by simp
      next
        case key: False
        show ?thesis
        proof (cases "RoutesByNode st (Id targetNode)")
          case (Inl err)
          then show ?thesis using te False \<open>Vertex st target = Inr targetNode\<close> key by simp
        next
          case routes: (Inr routes)
          show ?thesis
          proof (cases "addCidrs ip thisRoutes (routeCidrs routes) (ips0 @ ownAddrs ip targetNode)")
            case (Inl err)
            then show ?thesis
              using te False \<open>Vertex st target = Inr targetNode\<close> key routes by simp
          next
            case ips1: (Inr ips1)
            have "card (?U - insert target visited) < n" using less Cons.prems(2) by simp
            then have nn: "recurseEdges n ip st adj self thisRoutes targetNode (insert target visited) \<noteq> None"
              by (rule IH)
            then obtain res where res: "recurseEdges n ip st adj self thisRoutes targetNode
                 (insert target visited) = Some res" by auto
            show ?thesis
            proof (cases res)
              case (Inl err)
              then show ?thesis
                using te False \<open>Vertex st target = Inr targetNode\<close> key routes ips1 res by simp
            next
              case (Inr r)
              obtain eips erts vis1 where r: "r = (eips, erts, vis1)" by (cases r)
              have "insert target visited \<subseteq> vis1"
                using recurseEdges_mono[of n ip st adj self thisRoutes targetNode "insert target visited" r]
                      res Inr r by simp
              then have "card (?U - vis1) \<le> card (?U - insert target visited)"
                by (intro card_Diff_mono) auto
              then have le2: "card (?U - vis1) \<le> n" using le1 by simp
              show ?thesis
                using Cons.IH[OF sub le2] te False \<open>Vertex st target = Inr targetNode\<close>
                      key routes ips1 res Inr r by simp
            qed
          qed
        qed
      qed
    qed
  qed
qed

lemma recurseEdges_total:
  "card (set (targetIDs adj) - visited) < n \<Longrightarrow>
   recurseEdges n ip st adj self thisRoutes node visited \<noteq> None"
proof (induction n arbitrary: node visited)
  case 0
  then show ?case by simp
next
  case (Suc n)
  have "card (set (targetIDs adj) - insert (Id node) visited) \<le> card (set (targetIDs adj) - visited)"
    by (intro card_Diff_mono) auto
  then have le: "card (set (targetIDs adj) - insert (Id node) visited) \<le> n"
    using Suc.prems by simp
  have "recurseTargets n ip st adj self thisRoutes (adjacent adj (Id node))
          (insert (Id node) visited) [] [] \<noteq> None"
    by (rule recurseTargets_total[OF Suc.IH adjacent_targetIDs le])
  then show ?case by simp
qed

lemma recurseEdges_enoughFuel:
  "recurseEdges (enoughFuel adj) ip st adj self thisRoutes node {} \<noteq> None"
proof (rule recurseEdges_total)
  have "card (set (targetIDs adj)) \<le> length (targetIDs adj)" by (rule card_length)
  then show "card (set (targetIDs adj) - {}) < enoughFuel adj"
    by (simp add: enoughFuel_def targetIDs_def)
qed

lemma recursePeers_returns: "recursePeers ip st adj self thisRoutes node \<noteq> None"
  using recurseEdges_enoughFuel[of adj ip st self thisRoutes node]
  by (auto simp add: recursePeers_def split: sum.splits option.splits)

lemma peersLoop_returns: "peersLoop ip st adj self ourRoutes targets out \<noteq> None"
proof (induction targets arbitrary: out)
  case Nil
  show ?case by simp
next
  case (Cons te rest)
  obtain a e where te: "te = (a, e)" by (cases te)
  show ?case
  proof (cases "Vertex st a")
    case (Inl err)
    then show ?thesis using te by simp
  next
    case (Inr node)
    obtain res where res: "recursePeers ip st adj self ourRoutes node = Some res"
      using recursePeers_returns[of ip st adj self ourRoutes node] by auto
    show ?thesis
    proof (cases res)
      case (Inl err)
      then show ?thesis using te Inr res Cons.IH by simp
    next
      case r: (Inr r)
      obtain allowedIPs allowedRoutes where "r = (allowedIPs, allowedRoutes)" by (cases r)
      then show ?thesis using te Inr res r Cons.IH by simp
    qed
  qed
qed

lemma WireGuardPeersOver_returns: "WireGuardPeersOver ip st adj self \<noteq> None"
  using peersLoop_returns[of ip st adj self]
  by (auto simp add: WireGuardPeersOver_def split: sum.splits option.splits)

lemma WireGuardPeersFor_returns: "WireGuardPeersFor ip st self \<noteq> None"
  using WireGuardPeersOver_returns[of ip st _ self]
  by (auto simp add: WireGuardPeersFor_def split: sum.splits)

lemma recursePeers_sound:
  assumes "recursePeers ip st adj self thisRoutes node = Some (Inr (allowedIPs, allowedRoutes))"
    and "Vertex st (Id node) = Inr node" and "PublicKey node \<noteq> []"
  shows "allowedRoutes = [] \<and> (\<forall>p\<in>set allowedIPs. reachedFrom ip st adj self (Id node) p)"
proof -
  have path: "openPath st adj self (Id node) (Id node)"
    using assms(2,3) by (rule openPath.start)
  obtain routes where r: "RoutesByNode st (Id node) = Inr routes"
    using assms(1) by (cases "RoutesByNode st (Id node)") (auto simp add: recursePeers_def)
  obtain ips1 where a: "addCidrs ip thisRoutes (routeCidrs routes) (ownAddrs ip node) = Inr ips1"
    using assms(1) r
    by (cases "addCidrs ip thisRoutes (routeCidrs routes) (ownAddrs ip node)")
       (auto simp add: recursePeers_def)
  obtain eips erts vis where
    re: "recurseEdges (enoughFuel adj) ip st adj self thisRoutes node {} = Some (Inr (eips, erts, vis))"
    using assms(1) r a by (auto simp add: recursePeers_def split: option.splits sum.splits)
  have res: "allowedIPs = appendMissing ips1 eips" "allowedRoutes = appendMissing [] erts"
    using assms(1) r a re by (simp_all add: recursePeers_def)
  have good0: "\<forall>p\<in>set (ownAddrs ip node). reachedFrom ip st adj self (Id node) p"
    using reachedFrom_own[OF path assms(2)] by auto
  have good1: "\<forall>p\<in>set ips1. reachedFrom ip st adj self (Id node) p"
    using addCidrs_reached[OF a path assms(2) r good0] .
  have e: "erts = [] \<and> (\<forall>p\<in>set eips. reachedFrom ip st adj self (Id node) p)"
    using recurseEdges_sound[OF re assms(2) path] .
  show ?thesis using res good1 e by (auto simp add: set_appendMissing)
qed

lemma peersLoop_sound:
  "peersLoop ip st adj self ourRoutes targets out = Some (Inr res) \<Longrightarrow>
   \<forall>peer\<in>set out. peerSound ip st adj self peer \<Longrightarrow>
   \<forall>peer\<in>set res. peerSound ip st adj self peer"
proof (induction targets arbitrary: out)
  case Nil
  then show ?case by simp
next
  case (Cons te rest)
  obtain a e where te: "te = (a, e)" by (cases te)
  obtain node where v: "Vertex st a = Inr node"
    using Cons.prems(1) te by (cases "Vertex st a") auto
  have idn: "Id node = a" using v by (rule Vertex_Id)
  show ?case
  proof (cases "PublicKey node = []")
    case True
    then have "peersLoop ip st adj self ourRoutes rest out = Some (Inr res)"
      using Cons.prems(1) te v by simp
    then show ?thesis using Cons.IH Cons.prems(2) by blast
  next
    case False
    obtain allowedIPs allowedRoutes where
      rp: "recursePeers ip st adj self ourRoutes node = Some (Inr (allowedIPs, allowedRoutes))"
      using Cons.prems(1) te v False by (auto split: option.splits sum.splits)
    let ?peer = "\<lparr>Node = peerNode ip node, Proto = ProtoFromEdgeAttrs (Attributes e),
                   AllowedIps = map (PrefixString ip) allowedIPs,
                   AllowedRoutes = map (PrefixString ip) allowedRoutes\<rparr>"
    have loop: "peersLoop ip st adj self ourRoutes rest (out @ [?peer]) = Some (Inr res)"
      using Cons.prems(1) te v False rp by simp
    have s: "allowedRoutes = [] \<and> (\<forall>p\<in>set allowedIPs. reachedFrom ip st adj self (Id node) p)"
      using recursePeers_sound[OF rp] v idn False by simp
    have "peerSound ip st adj self ?peer"
      using s by (auto simp add: peerSound_def peerNode_def)
    then have "\<forall>peer\<in>set (out @ [?peer]). peerSound ip st adj self peer"
      using Cons.prems(2) by simp
    then show ?thesis using Cons.IH[OF loop] by blast
  qed
qed

lemma peersLoop_ids:
  "peersLoop ip st adj self ourRoutes targets out = Some (Inr res) \<Longrightarrow>
   map (\<lambda>peer. Id (Node peer)) res
     = map (\<lambda>peer. Id (Node peer)) out @ filter (hasPublicKey st) (map fst targets)"
proof (induction targets arbitrary: out)
  case Nil
  then show ?case by simp
next
  case (Cons te rest)
  obtain a e where te: "te = (a, e)" by (cases te)
  obtain node where v: "Vertex st a = Inr node"
    using Cons.prems(1) te by (cases "Vertex st a") auto
  have idn: "Id node = a" using v by (rule Vertex_Id)
  show ?case
  proof (cases "PublicKey node = []")
    case True
    then have "peersLoop ip st adj self ourRoutes rest out = Some (Inr res)"
      using Cons.prems(1) te v by simp
    then show ?thesis using Cons.IH te v True by (simp add: hasPublicKey_def)
  next
    case False
    obtain allowedIPs allowedRoutes where
      rp: "recursePeers ip st adj self ourRoutes node = Some (Inr (allowedIPs, allowedRoutes))"
      using Cons.prems(1) te v False by (auto split: option.splits sum.splits)
    let ?peer = "\<lparr>Node = peerNode ip node, Proto = ProtoFromEdgeAttrs (Attributes e),
                   AllowedIps = map (PrefixString ip) allowedIPs,
                   AllowedRoutes = map (PrefixString ip) allowedRoutes\<rparr>"
    have loop: "peersLoop ip st adj self ourRoutes rest (out @ [?peer]) = Some (Inr res)"
      using Cons.prems(1) te v False rp by simp
    show ?thesis using Cons.IH[OF loop] te v False idn
      by (simp add: hasPublicKey_def peerNode_def)
  qed
qed

lemma WireGuardPeersOver_loop:
  "WireGuardPeersOver ip st adj self = Some (Inr out) \<Longrightarrow>
   \<exists>ourRoutes. peersLoop ip st adj self ourRoutes (adjacent adj self) [] = Some (Inr out)"
  by (auto simp add: WireGuardPeersOver_def split: sum.splits option.splits)

text \<open>
  Claim C6, amended. The descriptors come in the iteration order of the adjacency map
  of the requesting node: one descriptor for each direct neighbour that has a public
  key, and nothing else. The function does not sort them.
\<close>

theorem peers_follow_adjacency_order:
  assumes "WireGuardPeersOver ip st adjacencyMap self = Some (Inr out)"
  shows "peerIDs out = filter (hasPublicKey st) (map fst (adjacent adjacencyMap self))"
  using WireGuardPeersOver_loop[OF assms] peersLoop_ids unfolding peerIDs_def by fastforce

text \<open>
  Claim C10. A node without a public key stops the traversal. Every allowed IP of a
  descriptor is the text of a prefix contributed (as a private address or through a
  route) by a node that is joined to the descriptor's node by a path on which every
  node has a public key and which does not pass through the requesting node or another
  of its direct neighbours. A node that can only be reached through nodes without a
  public key has no such path, so it contributes nothing. The allowed routes of every
  descriptor are empty.
\<close>

theorem empty_key_blocks_traversal:
  assumes "WireGuardPeersOver ip st adjacencyMap self = Some (Inr out)"
    and "peer \<in> set out"
  shows "AllowedRoutes peer = [] \<and>
         (\<forall>a\<in>set (AllowedIps peer).
            \<exists>t node p. openPath st adjacencyMap self (Id (Node peer)) t
               \<and> Vertex st t = Inr node \<and> PublicKey node \<noteq> []
               \<and> contributes ip st node p \<and> a = PrefixString ip p)"
proof -
  obtain ourRoutes where
    "peersLoop ip st adjacencyMap self ourRoutes (adjacent adjacencyMap self) [] = Some (Inr out)"
    using WireGuardPeersOver_loop[OF assms(1)] by blast
  then have "\<forall>peer\<in>set out. peerSound ip st adjacencyMap self peer"
    by (rule peersLoop_sound) simp
  then have "peerSound ip st adjacencyMap self peer" using assms(2) by blast
  then show ?thesis unfolding peerSound_def reachedFrom_def by blast
qed

text \<open>
  The theorem at the three nodes around \<open>P1\<close>.
\<close>

theorem peers_follow_adjacency_order_witness:
  "WireGuardPeersOver textNetIP fan fanAdjacency ''P1''
     = Some (Inr (peersOf (WireGuardPeersOver textNetIP fan fanAdjacency ''P1'')))
   \<and> peerIDs (peersOf (WireGuardPeersOver textNetIP fan fanAdjacency ''P1'')) = [''P3'', ''P2'']"
proof -
  have h: "WireGuardPeersOver textNetIP fan fanAdjacency ''P1''
     = Some (Inr (peersOf (WireGuardPeersOver textNetIP fan fanAdjacency ''P1'')))"
    by code_simp
  have f: "filter (hasPublicKey fan) (map fst (adjacent fanAdjacency ''P1'')) = [''P3'', ''P2'']"
    by code_simp
  show ?thesis using h peers_follow_adjacency_order[OF h] f by simp
qed

lemma chain_A:
  "WireGuardPeersOver textNetIP chain chainAdjacency ''A''
     = Some (Inr (peersOf (WireGuardPeersOver textNetIP chain chainAdjacency ''A'')))"
  by code_simp

lemma chain_A_summary:
  "summary (peersOf (WireGuardPeersOver textNetIP chain chainAdjacency ''A''))
     = [(''B'', [''172.16.0.2/32'', ''2001:db8::2/128''], [])]"
  by code_simp

lemma chain_filtered: "FilterGraph chain ''A'' = Inr chainAdjacency"
  by code_simp

text \<open>
  The theorem at the chain \<open>A - B - E - T\<close>, where \<open>E\<close> has no public key: the one
  descriptor of \<open>A\<close> is for \<open>B\<close> and holds the two addresses of \<open>B\<close>, none of \<open>T\<close>.
\<close>

theorem empty_key_blocks_traversal_witness:
  "FilterGraph chain ''A'' = Inr chainAdjacency
   \<and> WireGuardPeersOver textNetIP chain chainAdjacency ''A''
     = Some (Inr (peersOf (WireGuardPeersOver textNetIP chain chainAdjacency ''A'')))
   \<and> summary (peersOf (WireGuardPeersOver textNetIP chain chainAdjacency ''A''))
       = [(''B'', [''172.16.0.2/32'', ''2001:db8::2/128''], [])]
   \<and> (\<exists>t node p. openPath chain chainAdjacency ''A'' ''B'' t
          \<and> Vertex chain t = Inr node \<and> PublicKey node \<noteq> []
          \<and> contributes textNetIP chain node p \<and> ''172.16.0.2/32'' = PrefixString textNetIP p)"
proof -
  let ?out = "peersOf (WireGuardPeersOver textNetIP chain chainAdjacency ''A'')"
  obtain peer where out: "?out = [peer]" and pid: "Id (Node peer) = ''B''"
      and ips: "AllowedIps peer = [''172.16.0.2/32'', ''2001:db8::2/128'']"
    using chain_A_summary by (auto simp add: summary_def)
  have mem: "peer \<in> set ?out" using out by simp
  have "\<forall>a\<in>set (AllowedIps peer).
            \<exists>t node p. openPath chain chainAdjacency ''A'' (Id (Node peer)) t
               \<and> Vertex chain t = Inr node \<and> PublicKey node \<noteq> []
               \<and> contributes textNetIP chain node p \<and> a = PrefixString textNetIP p"
    using empty_key_blocks_traversal[OF chain_A mem] by blast
  then have "\<exists>t node p. openPath chain chainAdjacency ''A'' ''B'' t
          \<and> Vertex chain t = Inr node \<and> PublicKey node \<noteq> []
          \<and> contributes textNetIP chain node p \<and> ''172.16.0.2/32'' = PrefixString textNetIP p"
    using ips pid by simp
  then show ?thesis using chain_filtered chain_A chain_A_summary by blast
qed

text \<open>
  Claim C1 fails in its count: the descriptor of \<open>R\<close> in the topology of \<open>P1\<close> does
  not hold 11 prefixes.
\<close>

theorem star_P1_not_eleven_prefixes:
  "prefixCounts (peersOf (WireGuardPeersFor textNetIP star ''P1'')) = [10]
   \<and> prefixCounts (peersOf (WireGuardPeersFor textNetIP star ''P1'')) \<noteq> [11]"
  by code_simp

text \<open>
  Claim C6 fails as stated: \<open>WireGuardPeersFor\<close> does not sort. Where the adjacency
  map of \<open>P1\<close> yields \<open>P3\<close> before \<open>P2\<close>, the descriptors come back in that order.
\<close>

theorem peers_not_sorted:
  "FilterGraph fan ''P1'' = Inr fanAdjacency
   \<and> WireGuardPeersOver textNetIP fan fanAdjacency ''P1''
       = Some (Inr (peersOf (WireGuardPeersOver textNetIP fan fanAdjacency ''P1'')))
   \<and> peerIDs (peersOf (WireGuardPeersOver textNetIP fan fanAdjacency ''P1'')) = [''P3'', ''P2'']
   \<and> \<not> sortedByID (peersOf (WireGuardPeersOver textNetIP fan fanAdjacency ''P1''))
   \<and> \<not> sortedByID (peersOf (WireGuardPeersFor textNetIP fan ''P1''))"
  by code_simp

lemma starAdjacency_R: "adjacent (starAdjacency ps) ''R'' = map (\<lambda>p. (p, edge ''R'' p)) ps"
  by (simp add: adjacent_def starAdjacency_def)

lemma starAdjacency_peer:
  "p \<in> starPeers \<Longrightarrow> adjacent (starAdjacency ps) p = [(''R'', edge ''R'' p)]"
  by (auto simp add: adjacent_def starAdjacency_def starPeers_def)

lemma star_Vertex_peer: "p \<in> starPeers \<Longrightarrow> Vertex star p = Inr (starNode p)"
  by (auto simp add: starPeers_def Vertex_def star_def mesh_def meshNode_def starNode_def)

lemma star_Vertex_R:
  "Vertex star ''R'' = Inr (meshNode ''R'' ''key-R'' ''172.16.0.6/32'' ''2001:db8::6/128'')"
  by (simp add: Vertex_def star_def mesh_def meshNode_def)

lemma star_routes: "RoutesByNode star nodeID = Inr []"
  by (simp add: star_def mesh_def)

lemma starNode_simps:
  "Id (starNode p) = p" "PublicKey (starNode p) \<noteq> []"
  "ownAddrs textNetIP (starNode p) = starAddrs p"
  by (simp_all add: starNode_def meshNode_def ownAddrs_def PrivateAddrV4_def PrivateAddrV6_def
        textNetIP_def starAddrs_def)

lemma R_not_peer: "''R'' \<notin> starPeers"
  by (simp add: starPeers_def)

text \<open>The topology of the router.\<close>

lemma star_leaf_edges:
  assumes "p \<in> starPeers"
  shows "recurseEdges (Suc k) textNetIP star (starAdjacency ps) ''R'' [] (starNode p) {}
           = Some (Inr ([], [], {p}))"
  using assms by (simp add: starNode_simps starAdjacency_peer)

lemma star_leaf_peers:
  assumes "p \<in> starPeers"
  shows "recursePeers textNetIP star (starAdjacency ps) ''R'' [] (starNode p)
           = Some (Inr (starAddrs p, []))"
  using assms star_leaf_edges[OF assms]
  by (simp add: recursePeers_def star_routes routeCidrs_def starNode_simps enoughFuel_def)

lemma star_R_loop:
  "set qs \<subseteq> starPeers \<Longrightarrow>
   \<exists>res. peersLoop textNetIP star (starAdjacency ps) ''R'' [] (map (\<lambda>p. (p, edge ''R'' p)) qs) out
            = Some (Inr res)
        \<and> summary res = summary out @
            map (\<lambda>p. (p, starAddrs p, [])) qs"
proof (induction qs arbitrary: out)
  case Nil
  then show ?case by simp
next
  case (Cons p qs)
  have p: "p \<in> starPeers" and qs: "set qs \<subseteq> starPeers" using Cons.prems by auto
  let ?peer = "\<lparr>Node = peerNode textNetIP (starNode p),
                 Proto = ProtoFromEdgeAttrs (Attributes (edge ''R'' p)),
                 AllowedIps = map (PrefixString textNetIP) (starAddrs p),
                 AllowedRoutes = map (PrefixString textNetIP) []\<rparr>"
  obtain res where
    r: "peersLoop textNetIP star (starAdjacency ps) ''R'' [] (map (\<lambda>p. (p, edge ''R'' p)) qs)
          (out @ [?peer]) = Some (Inr res)"
    and s: "summary res = summary (out @ [?peer]) @
            map (\<lambda>p. (p, starAddrs p, [])) qs"
    using Cons.IH[OF qs, of "out @ [?peer]"] by blast
  have "peersLoop textNetIP star (starAdjacency ps) ''R'' [] (map (\<lambda>p. (p, edge ''R'' p)) (p # qs)) out
          = Some (Inr res)"
    using r by (simp add: star_Vertex_peer[OF p] starNode_simps star_leaf_peers[OF p])
  moreover have "summary (out @ [?peer]) =
      summary out @ [(p, starAddrs p, [])]"
    by (simp add: summary_def peerNode_def starNode_simps textNetIP_def)
  ultimately show ?case using s by simp
qed

lemma star_R_any_order:
  assumes "set ps = starPeers"
  shows "\<exists>out. WireGuardPeersOver textNetIP star (starAdjacency ps) ''R'' = Some (Inr out)
        \<and> summary out =
            map (\<lambda>p. (p, starAddrs p, [])) ps"
  using star_R_loop[of ps ps "[]"] assms
  by (simp add: WireGuardPeersOver_def star_routes routeCidrs_def starAdjacency_R summary_def)

text \<open>The topology of the peer \<open>P1\<close>.\<close>

lemma star_P1_adjacent: "adjacent (starAdjacency ps) ''P1'' = [(''R'', edge ''R'' ''P1'')]"
  by (rule starAdjacency_peer) (simp add: starPeers_def)

lemma star_behind_router:
  assumes "p \<in> starPeers"
  shows "recurseTargets m textNetIP star (starAdjacency ps) ''P1'' []
           (adjacent (starAdjacency ps) p) (insert p visited) [] []
           = Some (Inr ([], [], insert p visited))"
  using assms by (simp add: starAdjacency_peer star_P1_adjacent)

lemma star_router_targets:
  "set qs \<subseteq> starPeers \<Longrightarrow> distinct qs \<Longrightarrow> set qs \<inter> visited = {} \<Longrightarrow>
   recurseTargets (Suc m) textNetIP star (starAdjacency ps) ''P1'' []
       (map (\<lambda>p. (p, edge ''R'' p)) qs) visited ips []
     = Some (Inr (ips @ concat (map starAddrs (filter (\<lambda>p. p \<noteq> ''P1'') qs)), [],
                  visited \<union> (set qs - {''P1''})))"
proof (induction qs arbitrary: visited ips)
  case Nil
  then show ?case by simp
next
  case (Cons p qs)
  have p: "p \<in> starPeers" and qs: "set qs \<subseteq> starPeers" and d: "distinct qs"
    and pq: "p \<notin> set qs" and pv: "p \<notin> visited" and qv: "set qs \<inter> visited = {}"
    using Cons.prems by auto
  show ?case
  proof (cases "p = ''P1''")
    case True
    then show ?thesis using Cons.IH[OF qs d qv, of ips] pq by auto
  next
    case False
    have pR: "p \<noteq> ''R''" using p R_not_peer by auto
    have qv': "set qs \<inter> insert p visited = {}" using qv pq by auto
    have "recurseTargets (Suc m) textNetIP star (starAdjacency ps) ''P1'' []
            (map (\<lambda>p. (p, edge ''R'' p)) (p # qs)) visited ips []
          = recurseTargets (Suc m) textNetIP star (starAdjacency ps) ''P1'' []
            (map (\<lambda>p. (p, edge ''R'' p)) qs) (insert p visited) (ips @ starAddrs p) []"
      using False pR pv
      by (simp add: star_P1_adjacent star_Vertex_peer[OF p] starNode_simps star_routes
            routeCidrs_def star_behind_router[OF p])
    then show ?thesis using Cons.IH[OF qs d qv', of "ips @ starAddrs p"] False by auto
  qed
qed

lemma set_starAddrs_peers:
  "(\<Union>p\<in>starPeers - {''P1''}. set (starAddrs p)) =
     {''172.16.0.2/32'', ''2001:db8::2/128'', ''172.16.0.3/32'', ''2001:db8::3/128'',
      ''172.16.0.4/32'', ''2001:db8::4/128'', ''172.16.0.5/32'', ''2001:db8::5/128''}"
  by (auto simp add: starPeers_def starAddrs_def)

lemma distinct_appendMissing: "distinct acc \<Longrightarrow> distinct (appendMissing acc xs)"
  by (induction xs arbitrary: acc) auto

lemma star_P1_any_order:
  assumes "distinct ps" and "set ps = starPeers"
  shows "\<exists>peer. WireGuardPeersOver textNetIP star (starAdjacency ps) ''P1'' = Some (Inr [peer])
        \<and> Id (Node peer) = ''R''
        \<and> set (AllowedIps peer) =
            {''172.16.0.6/32'', ''2001:db8::6/128'',
             ''172.16.0.2/32'', ''2001:db8::2/128'', ''172.16.0.3/32'', ''2001:db8::3/128'',
             ''172.16.0.4/32'', ''2001:db8::4/128'', ''172.16.0.5/32'', ''2001:db8::5/128''}
        \<and> length (AllowedIps peer) = 10
        \<and> AllowedRoutes peer = []"
proof -
  let ?R = "meshNode ''R'' ''key-R'' ''172.16.0.6/32'' ''2001:db8::6/128''"
  let ?edgeIPs = "concat (map starAddrs (filter (\<lambda>p. p \<noteq> ''P1'') ps))"
  let ?ips = "appendMissing [''172.16.0.6/32'', ''2001:db8::6/128''] ?edgeIPs"
  have own: "ownAddrs textNetIP ?R = [''172.16.0.6/32'', ''2001:db8::6/128'']"
    by (simp add: meshNode_def ownAddrs_def PrivateAddrV4_def PrivateAddrV6_def textNetIP_def)
  have idR: "Id ?R = ''R''" "PublicKey ?R \<noteq> []" by (simp_all add: meshNode_def)
  have sub: "set ps \<subseteq> starPeers" "set ps \<inter> {''R''} = {}"
    using assms(2) R_not_peer by auto
  have fuel: "enoughFuel (starAdjacency ps) = Suc (Suc (length ps + 4))"
    by (simp add: enoughFuel_def starAdjacency_def)
  have re: "recurseEdges (enoughFuel (starAdjacency ps)) textNetIP star (starAdjacency ps) ''P1'' [] ?R {}
             = Some (Inr (?edgeIPs, [], {''R''} \<union> (set ps - {''P1''})))"
  proof -
    have "recurseEdges (Suc (Suc (length ps + 4))) textNetIP star (starAdjacency ps) ''P1'' [] ?R {}
            = recurseTargets (Suc (length ps + 4)) textNetIP star (starAdjacency ps) ''P1'' []
                (map (\<lambda>p. (p, edge ''R'' p)) ps) {''R''} [] []"
      by (simp only: recurseEdges.simps idR starAdjacency_R)
    also have "\<dots> = Some (Inr ([] @ ?edgeIPs, [], {''R''} \<union> (set ps - {''P1''})))"
      by (rule star_router_targets[OF sub(1) assms(1) sub(2)])
    finally show ?thesis by (simp only: fuel append_Nil)
  qed
  have rp: "recursePeers textNetIP star (starAdjacency ps) ''P1'' [] ?R = Some (Inr (?ips, []))"
    by (simp add: recursePeers_def idR star_routes routeCidrs_def own re
          del: appendMissing.simps(2))
  let ?peer = "\<lparr>Node = peerNode textNetIP ?R,
                 Proto = ProtoFromEdgeAttrs (Attributes (edge ''R'' ''P1'')),
                 AllowedIps = map (PrefixString textNetIP) ?ips,
                 AllowedRoutes = map (PrefixString textNetIP) []\<rparr>"
  have w: "WireGuardPeersOver textNetIP star (starAdjacency ps) ''P1'' = Some (Inr [?peer])"
    by (simp add: WireGuardPeersOver_def star_routes routeCidrs_def star_P1_adjacent
          star_Vertex_R idR rp del: appendMissing.simps(2))
  have ips: "AllowedIps ?peer = ?ips" by (simp add: textNetIP_def del: appendMissing.simps(2))
  have "set ?edgeIPs = (\<Union>p\<in>starPeers - {''P1''}. set (starAddrs p))"
    using assms(2) by auto
  then have s: "set ?ips =
            {''172.16.0.6/32'', ''2001:db8::6/128'',
             ''172.16.0.2/32'', ''2001:db8::2/128'', ''172.16.0.3/32'', ''2001:db8::3/128'',
             ''172.16.0.4/32'', ''2001:db8::4/128'', ''172.16.0.5/32'', ''2001:db8::5/128''}"
    by (simp only: set_appendMissing set_starAddrs_peers) auto
  have "distinct ?ips" by (rule distinct_appendMissing) simp
  then have "length ?ips = card (set ?ips)" by (simp only: distinct_card)
  also have "\<dots> = 10" by (simp only: s) simp
  finally have l: "length ?ips = 10" .
  have "Id (Node ?peer) = ''R''" by (simp add: peerNode_def meshNode_def)
  moreover have "AllowedRoutes ?peer = []" by simp
  ultimately show ?thesis using w s l ips by (intro exI[of _ ?peer]) (simp only: simp_thms)
qed

text \<open>
  Claim C1, amended. In the star with the allow-all policy no edge is filtered out
  (shown below, with the evaluated results). Whatever the order \<open>ps\<close> in which a
  \<open>range\<close> yields the neighbours of \<open>R\<close>: the topology of \<open>R\<close> has five
  descriptors, one per \<open>Pi\<close>, each with exactly the /32 and the /128 of that \<open>Pi\<close>
  and no allowed route; the topology of \<open>P1\<close> has exactly one descriptor, for \<open>R\<close>,
  whose allowed IPs are the addresses of \<open>R\<close>, \<open>P2\<close>, \<open>P3\<close>, \<open>P4\<close> and \<open>P5\<close>.
  These are 10 prefixes.
\<close>

theorem star_topology:
  assumes "distinct ps" and "set ps = {''P1'', ''P2'', ''P3'', ''P4'', ''P5''}"
  shows "(\<exists>out. WireGuardPeersOver textNetIP star (starAdjacency ps) ''R'' = Some (Inr out)
            \<and> summary out = map (\<lambda>p. (p, starAddrs p, [])) ps)
       \<and> (\<exists>peer. WireGuardPeersOver textNetIP star (starAdjacency ps) ''P1'' = Some (Inr [peer])
            \<and> Id (Node peer) = ''R''
            \<and> set (AllowedIps peer) =
                {''172.16.0.6/32'', ''2001:db8::6/128'',
                 ''172.16.0.2/32'', ''2001:db8::2/128'', ''172.16.0.3/32'', ''2001:db8::3/128'',
                 ''172.16.0.4/32'', ''2001:db8::4/128'', ''172.16.0.5/32'', ''2001:db8::5/128''}
            \<and> length (AllowedIps peer) = 10
            \<and> AllowedRoutes peer = [])"
proof -
  have s: "set ps = starPeers" using assms(2) by (simp add: starPeers_def)
  show ?thesis using star_R_any_order[OF s] star_P1_any_order[OF assms(1) s] by blast
qed

text \<open>
  The theorem at the order \<open>P1, ..., P5\<close>, which is the order of the filtered graph
  of the model, with both topologies evaluated through \<open>WireGuardPeersFor\<close>.
\<close>

theorem star_topology_witness:
  "distinct [''P1'', ''P2'', ''P3'', ''P4'', ''P5'']
   \<and> FilterGraph star ''R'' = Inr (starAdjacency [''P1'', ''P2'', ''P3'', ''P4'', ''P5''])
   \<and> FilterGraph star ''P1'' = Inr (starAdjacency [''P1'', ''P2'', ''P3'', ''P4'', ''P5''])
   \<and> summary (peersOf (WireGuardPeersFor textNetIP star ''R'')) =
       [(''P1'', [''172.16.0.1/32'', ''2001:db8::1/128''], []),
        (''P2'', [''172.16.0.2/32'', ''2001:db8::2/128''], []),
        (''P3'', [''172.16.0.3/32'', ''2001:db8::3/128''], []),
        (''P4'', [''172.16.0.4/32'', ''2001:db8::4/128''], []),
        (''P5'', [''172.16.0.5/32'', ''2001:db8::5/128''], [])]
   \<and> summary (peersOf (WireGuardPeersFor textNetIP star ''P1'')) =
       [(''R'', [''172.16.0.6/32'', ''2001:db8::6/128'',
                 ''172.16.0.2/32'', ''2001:db8::2/128'',
                 ''172.16.0.3/32'', ''2001:db8::3/128'',
                 ''172.16.0.4/32'', ''2001:db8::4/128'',
                 ''172.16.0.5/32'', ''2001:db8::5/128''], [])]
   \<and> (\<exists>peer. WireGuardPeersOver textNetIP star
                 (starAdjacency [''P1'', ''P2'', ''P3'', ''P4'', ''P5'']) ''P1'' = Some (Inr [peer])
          \<and> length (AllowedIps peer) = 10)"
proof -
  have d: "distinct [''P1'', ''P2'', ''P3'', ''P4'', ''P5'']" by simp
  have s: "set [''P1'', ''P2'', ''P3'', ''P4'', ''P5''] = {''P1'', ''P2'', ''P3'', ''P4'', ''P5''}"
    by simp
  have f: "FilterGraph star ''R'' = Inr (starAdjacency [''P1'', ''P2'', ''P3'', ''P4'', ''P5''])"
    "FilterGraph star ''P1'' = Inr (starAdjacency [''P1'', ''P2'', ''P3'', ''P4'', ''P5''])"
    by code_simp+
  have r: "summary (peersOf (WireGuardPeersFor textNetIP star ''R'')) =
       [(''P1'', [''172.16.0.1/32'', ''2001:db8::1/128''], []),
        (''P2'', [''172.16.0.2/32'', ''2001:db8::2/128''], []),
        (''P3'', [''172.16.0.3/32'', ''2001:db8::3/128''], []),
        (''P4'', [''172.16.0.4/32'', ''2001:db8::4/128''], []),
        (''P5'', [''172.16.0.5/32'', ''2001:db8::5/128''], [])]"
    by code_simp
  have p: "summary (peersOf (WireGuardPeersFor textNetIP star ''P1'')) =
       [(''R'', [''172.16.0.6/32'', ''2001:db8::6/128'',
                 ''172.16.0.2/32'', ''2001:db8::2/128'',
                 ''172.16.0.3/32'', ''2001:db8::3/128'',
                 ''172.16.0.4/32'', ''2001:db8::4/128'',
                 ''172.16.0.5/32'', ''2001:db8::5/128''], [])]"
    by code_simp
  show ?thesis
    using d f r p star_topology[OF d s] by blast
qed

end
